theory Spec2Isabelle
  imports Complex_Main "HOL-Library.Word" "HOL-Library.Multiset"
begin

section \<open>File integrity monitor: the scan-and-compare pipeline\<close>

text \<open>
  The development embeds \<^verbatim>\<open>file_integrity_parallel.py\<close> (the producer, the workers,
  the shared baseline array, the progress counter and the alert list) and the
  sequential \<^verbatim>\<open>file_integrity_linear.py\<close>. Python exceptions are values of
  \<open>error\<close>; a function that may raise returns \<open>error + 'a\<close> with \<open>Inl\<close> the exception.
\<close>

subsection \<open>Exceptions\<close>

datatype error =
    JSONDecodeError
  | KeyError string
  | TypeError
  | OverflowError
  | IndexError
  | FileNotFoundError
  | PermissionError
  | OSError

subsection \<open>Cells of the float64 array\<close>

text \<open>
  Both pipelines keep the baseline in a numpy array of \<^verbatim>\<open>dtype=np.float64\<close> and shape
  \<open>(n, 3)\<close>. A finite float64 is a rational number, so a cell is a \<open>rat\<close>. A Python
  \<open>int\<close> stored in a cell, or compared with one, is first converted to float64: it is
  rounded to 53 significant bits, ties to the even significand. An integer whose rounded
  value needs more than 1024 bits (it is \<open>2 ^ 1024\<close> or more) is beyond the largest float64
  and raises \<^verbatim>\<open>OverflowError\<close>.
\<close>

fun bit_length :: "nat \<Rightarrow> nat" where
  "bit_length n = (if n = 0 then 0 else Suc (bit_length (n div 2)))"

declare bit_length.simps [simp del]

definition f64_round :: "nat \<Rightarrow> nat" where
  "f64_round n =
     (let e = bit_length n in
      if e \<le> 53 then n
      else
        let s = e - 53; q = n div 2 ^ s; r = n mod 2 ^ s; h = 2 ^ (s - 1) in
        (if h < r \<or> (r = h \<and> odd q) then q + 1 else q) * 2 ^ s)"

definition f64_of_nat :: "nat \<Rightarrow> rat" where
  "f64_of_nat n = of_nat (f64_round n)"

subsection \<open>The persisted snapshot\<close>

text \<open>
  \<^verbatim>\<open>json.load\<close> either raises or returns the decoded document. The documents the model
  covers are a list of objects (\<open>Records\<close>) and a single object at the top (\<open>Object\<close>, with
  its keys in order). A decoded object is a Python dict, here a map from keys to values.
  The values the model covers are JSON integers, JSON reals (already the float64 the
  decoder produced) and nested objects, which a float64 cell refuses.
\<close>

datatype jvalue = JInt int | JFloat rat | JObject

type_synonym entry = "string \<rightharpoonup> jvalue"

datatype snapshot = NotJSON | Records "entry list" | Object "string list"

definition getitem :: "entry \<Rightarrow> string \<Rightarrow> error + jvalue" where
  "getitem e k = (case e k of None \<Rightarrow> Inl (KeyError k) | Some v \<Rightarrow> Inr v)"

fun to_float64 :: "jvalue \<Rightarrow> error + rat" where
  "to_float64 (JInt i) =
     (let m = f64_round (nat \<bar>i\<bar>) in
      if 1024 < bit_length m then Inl OverflowError
      else Inr (if i < 0 then - of_nat m else of_nat m))"
| "to_float64 (JFloat x) = Inr x"
| "to_float64 JObject = Inl TypeError"

subsection \<open>The baseline array\<close>

record row =
  hash_cell :: rat
  size_cell :: rat
  timestamp_cell :: rat

definition zero_row :: row where
  "zero_row = \<lparr>hash_cell = 0, size_cell = 0, timestamp_cell = 0\<rparr>"

text \<open>
  A fresh array is zero-filled: \<^verbatim>\<open>np.zeros\<close> in the sequential pipeline, and the shared
  memory behind \<^verbatim>\<open>MemorySharedNumpyArray\<close> (a class of the \<^verbatim>\<open>mp_shared_array\<close> package) in
  the parallel one.
\<close>

definition zeros :: "nat \<Rightarrow> row list" where
  "zeros n = replicate n zero_row"

fun set_column :: "nat \<Rightarrow> rat \<Rightarrow> row \<Rightarrow> row" where
  "set_column 0 x r = r\<lparr>hash_cell := x\<rparr>"
| "set_column (Suc 0) x r = r\<lparr>size_cell := x\<rparr>"
| "set_column (Suc (Suc j)) x r = r\<lparr>timestamp_cell := x\<rparr>"

text \<open>
  \<^verbatim>\<open>np_array[i, j] = entry[k]\<close>: the right-hand side is evaluated first (KeyError), the
  index is checked next (IndexError), then the value is converted and stored.
\<close>

definition setitem :: "row list \<Rightarrow> nat \<Rightarrow> nat \<Rightarrow> entry \<Rightarrow> string \<Rightarrow> error + row list" where
  "setitem arr i j e k =
     (case getitem e k of
        Inl err \<Rightarrow> Inl err
      | Inr v \<Rightarrow>
          if length arr \<le> i then Inl IndexError
          else (case to_float64 v of
                  Inl err \<Rightarrow> Inl err
                | Inr x \<Rightarrow> Inr (arr[i := set_column j x (arr ! i)])))"

definition store_entry :: "row list \<Rightarrow> nat \<Rightarrow> entry \<Rightarrow> error + row list" where
  "store_entry arr i e =
     (case setitem arr i 0 e ''hash'' of
        Inl err \<Rightarrow> Inl err
      | Inr a0 \<Rightarrow>
          (case setitem a0 i 1 e ''size'' of
             Inl err \<Rightarrow> Inl err
           | Inr a1 \<Rightarrow> setitem a1 i 2 e ''timestamp''))"

fun store_entries :: "nat \<Rightarrow> entry list \<Rightarrow> row list \<Rightarrow> error + row list" where
  "store_entries i [] arr = Inr arr"
| "store_entries i (e # es) arr =
     (case store_entry arr i e of
        Inl err \<Rightarrow> Inl err
      | Inr arr' \<Rightarrow> store_entries (Suc i) es arr')"

text \<open>
  \<^verbatim>\<open>file_integrity_parallel.load_baseline_metadata(json_file, shared_array)\<close>: the array
  is the caller's; the function fills it and the model returns the filled array.
  \<^verbatim>\<open>enumerate\<close> over a dict yields its keys, and \<^verbatim>\<open>entry["hash"]\<close> on a key, a string,
  raises \<^verbatim>\<open>TypeError\<close>; over a dict without keys the loop body never runs.
\<close>

definition load_baseline_metadata :: "snapshot \<Rightarrow> row list \<Rightarrow> error + row list" where
  "load_baseline_metadata json_file shared_array =
     (case json_file of
        NotJSON \<Rightarrow> Inl JSONDecodeError
      | Records baseline_metadata \<Rightarrow> store_entries 0 baseline_metadata shared_array
      | Object [] \<Rightarrow> Inr shared_array
      | Object (key # keys) \<Rightarrow> Inl TypeError)"

text \<open>
  \<^verbatim>\<open>file_integrity_linear.load_baseline_metadata(json_file)\<close> allocates the array itself,
  one row per record of the snapshot.
\<close>

definition load_baseline_metadata_linear :: "snapshot \<Rightarrow> error + row list" where
  "load_baseline_metadata_linear json_file =
     (case json_file of
        NotJSON \<Rightarrow> Inl JSONDecodeError
      | Records baseline_metadata \<Rightarrow>
          store_entries 0 baseline_metadata (zeros (length baseline_metadata))
      | Object [] \<Rightarrow> Inr (zeros 0)
      | Object (key # keys) \<Rightarrow> Inl TypeError)"

subsection \<open>The live tree\<close>

text \<open>
  The file system is what the program observes of it: what \<^verbatim>\<open>os.walk\<close> yields for the
  scan directory (for each directory, its path below the top and its file names), and
  what reading one path gives at the time a worker reads it: the MD5 digest of the
  content as an integer with the size and the modification time from \<^verbatim>\<open>os.path\<close>, or
  the exception raised by \<^verbatim>\<open>open\<close>, \<^verbatim>\<open>read\<close>, \<^verbatim>\<open>getsize\<close> or \<^verbatim>\<open>getmtime\<close>.
\<close>

datatype read_outcome = Content nat nat rat | Raises error

record filesystem =
  tree :: "(string \<times> string list) list"
  read_file :: "string \<Rightarrow> read_outcome"

definition sep :: char where
  "sep = CHR 0x5C"

definition directory_to_scan :: string where
  "directory_to_scan = ''E:'' @ [sep] @ ''Images''"

definition join_path :: "string \<Rightarrow> string \<Rightarrow> string" where
  "join_path dirpath file = dirpath @ [sep] @ file"

text \<open>
  The paths in the order of the nested loops
  \<^verbatim>\<open>for root, _, files in os.walk(directory): for file in files\<close>.
\<close>

definition walk_files :: "string \<Rightarrow> filesystem \<Rightarrow> string list" where
  "walk_files directory fs =
     concat (map (\<lambda>(sub, files). map (join_path (directory @ sub)) files) (tree fs))"

definition count_files :: "filesystem \<Rightarrow> nat" where
  "count_files fs = sum_list (map (\<lambda>(sub, files). length files) (tree fs))"

record file_metadata =
  md_hash :: nat
  md_size :: nat
  md_timestamp :: rat

text \<open>
  \<^verbatim>\<open>calculate_file_metadata\<close>: \<open>Inr None\<close> is the \<^verbatim>\<open>return None\<close> of the
  \<^verbatim>\<open>except FileNotFoundError\<close> clause; every other exception leaves the function.
  \<^verbatim>\<open>int(file_hash, 16) & ((1 << 64) - 1)\<close> keeps the low 64 bits of the digest.
\<close>

definition calculate_file_metadata :: "filesystem \<Rightarrow> string \<Rightarrow> error + file_metadata option" where
  "calculate_file_metadata fs file_path =
     (case read_file fs file_path of
        Content digest file_size file_timestamp \<Rightarrow>
          Inr (Some \<lparr>md_hash = take_bit 64 digest, md_size = file_size,
                     md_timestamp = file_timestamp\<rparr>)
      | Raises FileNotFoundError \<Rightarrow> Inr None
      | Raises e \<Rightarrow> Inl e)"

subsection \<open>Alerts and the comparison with the baseline\<close>

text \<open>
  An alert is one formatted line of the source:
  \<open>NewFile p\<close> is \<^verbatim>\<open>f"New file detected: {p}"\<close>,
  \<open>SizeChanged p\<close> is \<^verbatim>\<open>f"File size changed: {p}"\<close>,
  \<open>TimestampChanged p\<close> is \<^verbatim>\<open>f"File timestamp changed: {p}"\<close>,
  \<open>ProcessingError p e\<close> is \<^verbatim>\<open>f"Error processing file {p}: {e}"\<close> (parallel pipeline),
  \<open>FileNotFound p\<close> is \<^verbatim>\<open>f"File not found: {p}"\<close> (sequential pipeline).
\<close>

datatype alert =
    NewFile string
  | SizeChanged string
  | TimestampChanged string
  | ProcessingError string error
  | FileNotFound string

fun alert_path :: "alert \<Rightarrow> string" where
  "alert_path (NewFile p) = p"
| "alert_path (SizeChanged p) = p"
| "alert_path (TimestampChanged p) = p"
| "alert_path (ProcessingError p e) = p"
| "alert_path (FileNotFound p) = p"

text \<open>\<^verbatim>\<open>np.where(column == x)[0][0]\<close>, called only when \<open>x\<close> is in the column.\<close>

fun first_index :: "rat list \<Rightarrow> rat \<Rightarrow> nat" where
  "first_index [] x = 0"
| "first_index (y # ys) x = (if y = x then 0 else Suc (first_index ys x))"

text \<open>
  The comparison shared by \<^verbatim>\<open>worker_process\<close> (lines 91 to 105) and
  \<^verbatim>\<open>process_files\<close> (lines 93 to 100). The fingerprint and the size are Python ints,
  converted to float64 by numpy when compared with cells.
\<close>

definition compare_with_baseline :: "row list \<Rightarrow> file_metadata \<Rightarrow> string \<Rightarrow> alert list" where
  "compare_with_baseline np_array current_metadata file_path =
     (let baseline_hashes = map hash_cell np_array;
          baseline_sizes = map size_cell np_array;
          baseline_timestamps = map timestamp_cell np_array
      in
        if f64_of_nat (md_hash current_metadata) \<notin> set baseline_hashes
        then [NewFile file_path]
        else
          let idx = first_index baseline_hashes (f64_of_nat (md_hash current_metadata)) in
            (if f64_of_nat (md_size current_metadata) \<noteq> baseline_sizes ! idx
             then [SizeChanged file_path] else []) @
            (if md_timestamp current_metadata \<noteq> baseline_timestamps ! idx
             then [TimestampChanged file_path] else []))"

text \<open>The row the lookup of a fingerprint selects, if any.\<close>

definition baseline_lookup :: "row list \<Rightarrow> nat \<Rightarrow> row option" where
  "baseline_lookup np_array fingerprint =
     find (\<lambda>r. hash_cell r = f64_of_nat fingerprint) np_array"

subsection \<open>The sequential pipeline\<close>

text \<open>
  \<^verbatim>\<open>process_files\<close> has no \<^verbatim>\<open>try\<close>: an exception of \<^verbatim>\<open>calculate_file_metadata\<close>
  ends the run.
\<close>

fun process_loop :: "filesystem \<Rightarrow> row list \<Rightarrow> string list \<Rightarrow> alert list \<Rightarrow> error + alert list" where
  "process_loop fs baseline_array [] alerts = Inr alerts"
| "process_loop fs baseline_array (file_path # rest) alerts =
     (case calculate_file_metadata fs file_path of
        Inl e \<Rightarrow> Inl e
      | Inr None \<Rightarrow> process_loop fs baseline_array rest (alerts @ [FileNotFound file_path])
      | Inr (Some current_metadata) \<Rightarrow>
          process_loop fs baseline_array rest
            (alerts @ compare_with_baseline baseline_array current_metadata file_path))"

definition process_files :: "filesystem \<Rightarrow> string \<Rightarrow> row list \<Rightarrow> error + alert list" where
  "process_files fs directory baseline_array =
     process_loop fs baseline_array (walk_files directory fs) []"

definition main_linear :: "snapshot \<Rightarrow> filesystem \<Rightarrow> error + alert list" where
  "main_linear baseline_json fs =
     (case load_baseline_metadata_linear baseline_json of
        Inl e \<Rightarrow> Inl e
      | Inr baseline_array \<Rightarrow> process_files fs directory_to_scan baseline_array)"

subsection \<open>The parallel pipeline\<close>

text \<open>
  What one iteration of the worker's loop appends to the alert list for the path it
  took from the queue, before it adds one to the progress counter: nothing when
  \<^verbatim>\<open>calculate_file_metadata\<close> returned \<^verbatim>\<open>None\<close> (lines 84 to 87), the alerts of the
  comparison (lines 98 to 105), or the alert of the \<^verbatim>\<open>except Exception\<close> clause
  (line 110).
\<close>

definition worker_task :: "filesystem \<Rightarrow> row list \<Rightarrow> string \<Rightarrow> alert list" where
  "worker_task fs shared_array file_path =
     (case calculate_file_metadata fs file_path of
        Inl e \<Rightarrow> [ProcessingError file_path e]
      | Inr None \<Rightarrow> []
      | Inr (Some current_metadata) \<Rightarrow>
          compare_with_baseline shared_array current_metadata file_path)"

text \<open>
  The producer and the workers are processes; the queue, the stop event, the counter
  and the alert list are what they share. Each operation on a shared object is one
  atomic step, and a schedule (a list of actors) says who moves next.

  The producer is at \<open>Putting\<close> before \<^verbatim>\<open>queue.put\<close> (or before \<^verbatim>\<open>stop_event.set()\<close>
  once the walk is over), at \<open>Waiting\<close> in the loop
  \<^verbatim>\<open>while queue.qsize() >= buffer_size: pass\<close>, and \<open>Finished\<close> after it set the event.

  A worker is at \<open>Checking\<close> before \<^verbatim>\<open>queue.empty()\<close> in the loop condition, at
  \<open>CheckingStop\<close> before \<^verbatim>\<open>stop_event.is_set()\<close>, at \<open>Getting\<close> before \<^verbatim>\<open>queue.get()\<close>,
  at \<open>Holding p\<close> once it has taken \<open>p\<close>, at \<open>Emitting as\<close> while it still has the
  alerts \<open>as\<close> to append and then the counter to advance, and \<open>Exited\<close> after the loop.
\<close>

datatype producer_pc = Putting | Waiting | Finished

datatype worker_pc =
    Checking
  | CheckingStop
  | Getting
  | Holding string
  | Emitting "alert list"
  | Exited

record state =
  pending :: "string list"
  producer :: producer_pc
  queue :: "string list"
  stop_event :: bool
  progress_counter :: "32 word"
  alert_list :: "alert list"
  workers :: "worker_pc list"

datatype actor = Producer | Worker nat

definition producer_process :: "nat \<Rightarrow> state \<Rightarrow> state" where
  "producer_process buffer_size s =
     (case producer s of
        Putting \<Rightarrow>
          (case pending s of
             [] \<Rightarrow> s\<lparr>stop_event := True, producer := Finished\<rparr>
           | file_path # rest \<Rightarrow>
               s\<lparr>queue := queue s @ [file_path], pending := rest, producer := Waiting\<rparr>)
      | Waiting \<Rightarrow> if buffer_size \<le> length (queue s) then s else s\<lparr>producer := Putting\<rparr>
      | Finished \<Rightarrow> s)"

definition worker_process :: "filesystem \<Rightarrow> row list \<Rightarrow> nat \<Rightarrow> state \<Rightarrow> state" where
  "worker_process fs shared_array i s =
     (if length (workers s) \<le> i then s
      else
        (case workers s ! i of
           Checking \<Rightarrow>
             s\<lparr>workers := (workers s)[i := (if queue s = [] then CheckingStop else Getting)]\<rparr>
         | CheckingStop \<Rightarrow>
             s\<lparr>workers := (workers s)[i := (if stop_event s then Exited else Getting)]\<rparr>
         | Getting \<Rightarrow>
             (case queue s of
                [] \<Rightarrow> s
              | file_path # rest \<Rightarrow>
                  s\<lparr>queue := rest, workers := (workers s)[i := Holding file_path]\<rparr>)
         | Holding file_path \<Rightarrow>
             s\<lparr>workers := (workers s)
                  [i := (if file_path = ''STOP'' then Exited
                         else Emitting (worker_task fs shared_array file_path))]\<rparr>
         | Emitting [] \<Rightarrow>
             s\<lparr>progress_counter := progress_counter s + 1,
               workers := (workers s)[i := Checking]\<rparr>
         | Emitting (a # rest) \<Rightarrow>
             s\<lparr>alert_list := alert_list s @ [a], workers := (workers s)[i := Emitting rest]\<rparr>
         | Exited \<Rightarrow> s))"

fun step :: "filesystem \<Rightarrow> row list \<Rightarrow> nat \<Rightarrow> state \<Rightarrow> actor \<Rightarrow> state" where
  "step fs shared_array buffer_size s Producer = producer_process buffer_size s"
| "step fs shared_array buffer_size s (Worker i) = worker_process fs shared_array i s"

definition run :: "filesystem \<Rightarrow> row list \<Rightarrow> nat \<Rightarrow> actor list \<Rightarrow> state \<Rightarrow> state" where
  "run fs shared_array buffer_size schedule s =
     foldl (step fs shared_array buffer_size) s schedule"

definition start :: "string list \<Rightarrow> nat \<Rightarrow> state" where
  "start paths num_processes =
     \<lparr>pending = paths, producer = Putting, queue = [], stop_event = False,
      progress_counter = 0, alert_list = [], workers = replicate num_processes Checking\<rparr>"

definition buffer_size :: nat where
  "buffer_size = 100"

text \<open>
  \<^verbatim>\<open>main\<close> up to the point the schedule reaches: it counts the files, allocates the
  array with that many rows, loads the baseline, and only then creates the queue, the
  event, the counter and the alert list and starts the processes. An exception of the
  load leaves \<^verbatim>\<open>main\<close> before any of them exists. \<^verbatim>\<open>range(num_processes)\<close> is empty
  when \<^verbatim>\<open>mp.cpu_count() - 2\<close> is not positive, as the truncating subtraction gives.
\<close>

definition main :: "snapshot \<Rightarrow> filesystem \<Rightarrow> nat \<Rightarrow> actor list \<Rightarrow> error + state" where
  "main baseline_json fs cpu_count schedule =
     (let num_files = count_files fs in
      case load_baseline_metadata baseline_json (zeros num_files) of
        Inl e \<Rightarrow> Inl e
      | Inr shared_array \<Rightarrow>
          Inr (run fs shared_array buffer_size schedule
                 (start (walk_files directory_to_scan fs) (cpu_count - 2))))"

text \<open>
  \<^verbatim>\<open>main\<close> gets past its progress loop \<^verbatim>\<open>while progress_counter.value < num_files\<close> and
  its \<^verbatim>\<open>join\<close>s in a state where the counter, read as a C \<^verbatim>\<open>int\<close>, has reached the
  number of files, every worker has left its loop and the producer has finished.
\<close>

definition completed :: "filesystem \<Rightarrow> state \<Rightarrow> bool" where
  "completed fs s \<longleftrightarrow>
     \<not> sint (progress_counter s) < int (count_files fs) \<and>
     list_all (\<lambda>w. w = Exited) (workers s) \<and> producer s = Finished"

subsection \<open>Bookkeeping for the proofs\<close>

text \<open>
  What a state still owes: the open tasks (the paths the producer has not put yet, the
  paths in the queue and the paths workers hold), the alerts workers still have to
  append, and the number of workers that are appending the alerts of a task and have
  its counter step still to come. The outstanding tasks are the tasks not yet counted.
\<close>

fun holding :: "worker_pc \<Rightarrow> string multiset" where
  "holding (Holding p) = {#p#}"
| "holding w = {#}"

fun emitting :: "worker_pc \<Rightarrow> alert multiset" where
  "emitting (Emitting as) = mset as"
| "emitting w = {#}"

fun busy :: "worker_pc \<Rightarrow> nat" where
  "busy (Emitting as) = 1"
| "busy w = 0"

definition open_tasks :: "state \<Rightarrow> string multiset" where
  "open_tasks s = mset (pending s) + mset (queue s) + sum_list (map holding (workers s))"

definition outstanding :: "state \<Rightarrow> nat" where
  "outstanding s = size (open_tasks s) + sum_list (map busy (workers s))"

definition alerts_of :: "filesystem \<Rightarrow> row list \<Rightarrow> string multiset \<Rightarrow> alert multiset" where
  "alerts_of fs shared_array M =
     sum_mset (image_mset (\<lambda>p. mset (worker_task fs shared_array p)) M)"

text \<open>
  The invariant of the pipeline, with the multiset \<open>D\<close> of the tasks taken in hand and
  the number \<open>n\<close> of the tasks counted as ghost values.
\<close>

definition accounted ::
  "filesystem \<Rightarrow> row list \<Rightarrow> string list \<Rightarrow> state \<Rightarrow> string multiset \<Rightarrow> nat \<Rightarrow> bool" where
  "accounted fs shared_array paths s D n \<longleftrightarrow>
     mset paths = open_tasks s + D \<and>
     mset (alert_list s) + sum_list (map emitting (workers s)) = alerts_of fs shared_array D \<and>
     size D = n + sum_list (map busy (workers s)) \<and>
     progress_counter s = of_nat n"

definition bounded :: "nat \<Rightarrow> state \<Rightarrow> bool" where
  "bounded cap s \<longleftrightarrow>
     length (queue s) \<le> cap \<and> (producer s = Putting \<longrightarrow> length (queue s) < cap)"

text \<open>The float64 a cell receives from the field \<open>k\<close> of a record, or the exception.\<close>

definition cell_of :: "entry \<Rightarrow> string \<Rightarrow> error + rat" where
  "cell_of e k = (case getitem e k of Inl err \<Rightarrow> Inl err | Inr v \<Rightarrow> to_float64 v)"

definition rejected :: "entry \<Rightarrow> bool" where
  "rejected e \<longleftrightarrow>
     isl (cell_of e ''hash'') \<or> isl (cell_of e ''size'') \<or> isl (cell_of e ''timestamp'')"

subsection \<open>A schedule under which the run completes\<close>

text \<open>
  One task at a time: the producer puts a path, worker 0 takes it, appends its alerts
  and counts it, and the producer leaves its wait loop. After the last path the
  producer sets the event and every worker finds the queue empty and the event set.
\<close>

definition task_schedule :: "filesystem \<Rightarrow> row list \<Rightarrow> string \<Rightarrow> actor list" where
  "task_schedule fs shared_array p =
     [Producer, Worker 0, Worker 0, Worker 0] @
     replicate (length (worker_task fs shared_array p)) (Worker 0) @ [Worker 0, Producer]"

definition completing_schedule :: "filesystem \<Rightarrow> row list \<Rightarrow> string list \<Rightarrow> nat \<Rightarrow> actor list" where
  "completing_schedule fs shared_array paths n =
     concat (map (task_schedule fs shared_array) paths) @ [Producer] @
     concat (map (\<lambda>i. [Worker i, Worker i]) [0..<n])"

subsection \<open>The snapshot format of the specification\<close>

text \<open>
  The specification describes the persisted snapshot as an ordered sequence of records,
  each with three fields: an unsigned fingerprint, a file size in bytes (an unsigned
  integer) and a modification timestamp (seconds since the epoch, fractions allowed).
  These two predicates follow that wording; they are not part of the program, which
  has no validation step.
\<close>

definition spec_record_valid :: "entry \<Rightarrow> bool" where
  "spec_record_valid e \<longleftrightarrow>
     (case e ''hash'' of Some (JInt h) \<Rightarrow> 0 \<le> h | _ \<Rightarrow> False) \<and>
     (case e ''size'' of Some (JInt n) \<Rightarrow> 0 \<le> n | _ \<Rightarrow> False) \<and>
     (case e ''timestamp'' of Some (JInt t) \<Rightarrow> True | Some (JFloat t) \<Rightarrow> True | _ \<Rightarrow> False)"

definition spec_snapshot_valid :: "snapshot \<Rightarrow> bool" where
  "spec_snapshot_valid json_file =
     (case json_file of
        NotJSON \<Rightarrow> False
      | Records es \<Rightarrow> list_all spec_record_valid es
      | Object keys \<Rightarrow> False)"

subsection \<open>Concrete scenarios\<close>

text \<open>
  Inputs on which the theorems below are instantiated: files directly under the scan
  directory, a record of the snapshot, and a schedule for one worker in which the
  producer walks the whole tree first and the worker then empties the queue.
\<close>

definition file_a :: string where
  "file_a = join_path directory_to_scan ''a.txt''"

definition file_b :: string where
  "file_b = join_path directory_to_scan ''b.txt''"

definition file_c :: string where
  "file_c = join_path directory_to_scan ''c.txt''"

definition record_of :: "int \<Rightarrow> int \<Rightarrow> rat \<Rightarrow> entry" where
  "record_of h n t = [''hash'' \<mapsto> JInt h, ''size'' \<mapsto> JInt n, ''timestamp'' \<mapsto> JFloat t]"

definition flat_tree :: "string list \<Rightarrow> (string \<Rightarrow> read_outcome) \<Rightarrow> filesystem" where
  "flat_tree names reader = \<lparr>tree = [([], names)], read_file = reader\<rparr>"

definition sequential_schedule :: "nat \<Rightarrow> actor list" where
  "sequential_schedule n = replicate (2 * n + 1) Producer @ replicate (6 * n + 2) (Worker 0)"

definition errors_fs :: filesystem where
  "errors_fs = flat_tree [''a.txt'', ''b.txt'', ''c.txt'']
     (\<lambda>p. if p = file_a then Content 1 10 100
           else if p = file_b then Raises FileNotFoundError
           else Raises PermissionError)"

definition vanished_fs :: filesystem where
  "vanished_fs = flat_tree [''a.txt''] (\<lambda>p. Raises FileNotFoundError)"

definition rounded_fs :: filesystem where
  "rounded_fs = flat_tree [''a.txt''] (\<lambda>p. Content 9007199254740993 10 100)"

definition copies_fs :: filesystem where
  "copies_fs = flat_tree [''a.txt'', ''b.txt'']
     (\<lambda>p. if p = file_a then Content 1 10 100 else Content 1 10 200)"

definition two_files_fs :: filesystem where
  "two_files_fs = flat_tree [''a.txt'', ''b.txt'']
     (\<lambda>p. if p = file_a then Content 1 10 100 else Content 2 20 200)"


definition malformed_record :: entry where
  "malformed_record =
     [''hash'' \<mapsto> JInt (- 1), ''size'' \<mapsto> JFloat (5 / 2), ''timestamp'' \<mapsto> JFloat 100]"

definition final_state :: "32 word \<Rightarrow> alert list \<Rightarrow> state" where
  "final_state c alerts =
     \<lparr>pending = [], producer = Finished, queue = [], stop_event = True,
      progress_counter = c, alert_list = alerts, workers = [Exited]\<rparr>"

definition new_file_fs :: filesystem where
  "new_file_fs = flat_tree [''b.txt''] (\<lambda>p. Content 2 20 200)"

definition zero_fingerprint_fs :: filesystem where
  "zero_fingerprint_fs = flat_tree [''a.txt''] (\<lambda>p. Content 0 20 200)"

text \<open>
  A schedule for one worker and one file in which the worker evaluates
  \<^verbatim>\<open>queue.empty()\<close> before the producer's \<^verbatim>\<open>queue.put\<close> and \<^verbatim>\<open>stop_event.is_set()\<close>
  after the producer's \<^verbatim>\<open>stop_event.set()\<close>, and the state it leads to.
\<close>

definition early_exit_schedule :: "actor list" where
  "early_exit_schedule = [Worker 0, Producer, Producer, Producer, Worker 0]"

definition lost_task_state :: state where
  "lost_task_state =
     \<lparr>pending = [], producer = Finished, queue = [file_b], stop_event = True,
      progress_counter = 0, alert_list = [], workers = [Exited]\<rparr>"

section \<open>Properties\<close>

subsection \<open>Rounding to float64\<close>

lemma bit_length_le: "n < 2 ^ k \<Longrightarrow> bit_length n \<le> k"
proof (induction n arbitrary: k rule: bit_length.induct)
  case (1 n)
  show ?case
  proof (cases "n = 0")
    case True
    then show ?thesis by (simp add: bit_length.simps)
  next
    case False
    then obtain j where k: "k = Suc j" using "1.prems" by (cases k) auto
    with "1.prems" have "n div 2 < 2 ^ j" by auto
    from "1.IH" [OF False this] show ?thesis using False k
      by (simp add: bit_length.simps [of n])
  qed
qed

lemma f64_round_exact: "n < 2 ^ 53 \<Longrightarrow> f64_round n = n"
  using bit_length_le [of n 53] by (simp add: f64_round_def Let_def)

lemma f64_of_nat_exact: "n < 2 ^ 53 \<Longrightarrow> f64_of_nat n = of_nat n"
  by (simp add: f64_of_nat_def f64_round_exact)

lemma to_float64_exact:
  assumes "0 \<le> i" and "i < 2 ^ 53"
  shows "to_float64 (JInt i) = Inr (of_int i)"
proof -
  have a: "\<bar>i\<bar> = i" using assms by simp
  have n: "nat i < 2 ^ 53" using assms by (simp add: nat_less_iff)
  have r: "f64_round (nat i) = nat i" by (rule f64_round_exact [OF n])
  have "bit_length (nat i) \<le> 53" using bit_length_le [OF n] .
  then have b: "\<not> 1024 < bit_length (nat i)" by simp
  show ?thesis using assms by (simp add: a r b Let_def)
qed

subsection \<open>The invariant of the parallel pipeline\<close>

lemma sum_list_map_update:
  fixes f :: "'a \<Rightarrow> 'b::comm_monoid_add"
  shows "i < length xs \<Longrightarrow>
    sum_list (map f (xs[i := y])) + f (xs ! i) = sum_list (map f xs) + f y"
proof (induction xs arbitrary: i)
  case Nil
  then show ?case by simp
next
  case (Cons x xs)
  show ?case
  proof (cases i)
    case 0
    then show ?thesis by (simp add: ac_simps)
  next
    case (Suc j)
    with Cons.prems have "j < length xs" by simp
    from Cons.IH [OF this] show ?thesis using Suc by (simp add: add.assoc)
  qed
qed

lemma alerts_of_add [simp]:
  "alerts_of fs arr (M + N) = alerts_of fs arr M + alerts_of fs arr N"
  by (simp add: alerts_of_def)

lemma alerts_of_single [simp]:
  "alerts_of fs arr {#p#} = mset (worker_task fs arr p)"
  by (simp add: alerts_of_def)

lemma alerts_of_add_mset [simp]:
  "alerts_of fs arr (add_mset p M) = mset (worker_task fs arr p) + alerts_of fs arr M"
  by (simp add: alerts_of_def)

lemma alerts_of_empty [simp]: "alerts_of fs arr {#} = {#}"
  by (simp add: alerts_of_def)

lemma sum_list_replicate_zero [simp]: "sum_list (replicate k (0::'a::comm_monoid_add)) = 0"
  by (induction k) auto

lemma accounted_start: "accounted fs arr paths (start paths k) {#} 0"
  by (simp add: accounted_def start_def open_tasks_def)

lemma holding_member:
  "i < length ws \<Longrightarrow> ws ! i = Holding p \<Longrightarrow> p \<in># sum_list (map holding ws)"
proof (induction ws arbitrary: i)
  case Nil
  then show ?case by simp
next
  case (Cons w ws)
  then show ?case by (cases i) auto
qed

lemma accounted_producer:
  assumes "accounted fs arr paths s D n"
  shows "accounted fs arr paths (producer_process cap s) D n"
  using assms
  by (auto simp: accounted_def producer_process_def open_tasks_def
      split: producer_pc.splits list.splits)

lemma accounted_worker:
  assumes inv: "accounted fs arr paths s D n" and stop: "''STOP'' \<notin> set paths"
  shows "\<exists>D' n'. accounted fs arr paths (worker_process fs arr i s) D' n'"
proof (cases "i < length (workers s)")
  case False
  then show ?thesis using inv by (auto simp: worker_process_def)
next
  case True
  note upd = sum_list_map_update [OF True, of holding] sum_list_map_update [OF True, of emitting]
    sum_list_map_update [OF True, of busy]
  show ?thesis
  proof (cases "workers s ! i")
    case Checking
    then show ?thesis
      using inv True upd [of "if queue s = [] then CheckingStop else Getting"]
      by (intro exI [of _ D] exI [of _ n])
        (auto simp: accounted_def worker_process_def open_tasks_def)
  next
    case CheckingStop
    then show ?thesis
      using inv True upd [of "if stop_event s then Exited else Getting"]
      by (intro exI [of _ D] exI [of _ n])
        (auto simp: accounted_def worker_process_def open_tasks_def)
  next
    case Getting
    show ?thesis
    proof (cases "queue s")
      case Nil
      then show ?thesis using inv True Getting
        by (intro exI [of _ D] exI [of _ n]) (auto simp: worker_process_def)
    next
      case (Cons p rest)
      then show ?thesis
        using inv True Getting upd [of "Holding p"]
        by (intro exI [of _ D] exI [of _ n])
          (auto simp: accounted_def worker_process_def open_tasks_def)
    qed
  next
    case (Holding p)
    from holding_member [OF True Holding]
    have "p \<in># sum_list (map holding (workers s))" .
    then have "p \<in># mset paths" using inv by (simp add: accounted_def open_tasks_def)
    then have ne: "p \<noteq> ''STOP''" using stop by auto
    show ?thesis
      using inv True Holding ne upd [of "Emitting (worker_task fs arr p)"]
      by (intro exI [of _ "D + {#p#}"] exI [of _ n])
        (auto simp: accounted_def worker_process_def open_tasks_def)
  next
    case (Emitting as)
    show ?thesis
    proof (cases as)
      case Nil
      then show ?thesis
        using inv True Emitting upd [of Checking]
        by (intro exI [of _ D] exI [of _ "Suc n"])
          (auto simp: accounted_def worker_process_def open_tasks_def)
    next
      case (Cons a rest)
      have e: "sum_list (map emitting (workers s)) =
          add_mset a (sum_list (map emitting ((workers s)[i := Emitting rest])))"
        using upd(2) [of "Emitting rest"] Emitting Cons by simp
      show ?thesis
        using inv True Emitting Cons upd(1) [of "Emitting rest"] upd(3) [of "Emitting rest"]
        by (intro exI [of _ D] exI [of _ n])
          (auto simp: accounted_def worker_process_def open_tasks_def e)
    qed
  next
    case Exited
    then show ?thesis using inv True
      by (intro exI [of _ D] exI [of _ n]) (auto simp: worker_process_def)
  qed
qed


lemma accounted_step:
  assumes "accounted fs arr paths s D n" and "''STOP'' \<notin> set paths"
  shows "\<exists>D' n'. accounted fs arr paths (step fs arr cap s a) D' n'"
proof (cases a)
  case Producer
  then show ?thesis using accounted_producer [OF assms(1)] by auto
next
  case (Worker i)
  then show ?thesis using accounted_worker [OF assms] by simp
qed

lemma accounted_run:
  assumes "''STOP'' \<notin> set paths"
  shows "accounted fs arr paths s D n \<Longrightarrow>
    \<exists>D' n'. accounted fs arr paths (run fs arr cap schedule s) D' n'"
proof (induction schedule arbitrary: s D n)
  case Nil
  then show ?case by (auto simp: run_def)
next
  case (Cons a schedule)
  from accounted_step [OF Cons.prems assms]
  obtain D' n' where "accounted fs arr paths (step fs arr cap s a) D' n'" by blast
  from Cons.IH [OF this] show ?case by (simp add: run_def)
qed

lemma bounded_producer: "bounded cap s \<Longrightarrow> bounded cap (producer_process cap s)"
  by (auto simp: bounded_def producer_process_def split: producer_pc.splits list.splits)

lemma bounded_worker: "bounded cap s \<Longrightarrow> bounded cap (worker_process fs arr i s)"
  by (auto simp: bounded_def worker_process_def split: worker_pc.splits list.splits)

lemma bounded_run: "bounded cap s \<Longrightarrow> bounded cap (run fs arr cap schedule s)"
proof (induction schedule arbitrary: s)
  case Nil
  then show ?case by (simp add: run_def)
next
  case (Cons a schedule)
  have "bounded cap (step fs arr cap s a)"
    using Cons.prems by (cases a) (simp_all add: bounded_producer bounded_worker)
  from Cons.IH [OF this] show ?case by (simp add: run_def)
qed

lemma sint_counter:
  assumes "n < 2 ^ 31"
  shows "sint (word_of_nat n :: 32 word) = int n"
proof -
  have "sint (word_of_int (int n) :: 32 word) = signed_take_bit 31 (int n)"
    by (simp only: sint_sbintrunc') simp
  also have "\<dots> = int n"
    using assms by (simp only: signed_take_bit_int_eq_self_iff) simp
  finally show ?thesis by simp
qed

lemma counter_reached:
  assumes "n \<le> m" and "\<not> sint (word_of_nat n :: 32 word) < int m"
  shows "n = m"
proof -
  have "sint (word_of_nat n :: 32 word) < 2 ^ 31"
    using sint_lt [of "word_of_nat n :: 32 word"] by simp
  with assms(2) have "int m < 2 ^ 31" by linarith
  then have "m < 2 ^ 31" by simp
  with assms(1) have "n < 2 ^ 31" by linarith
  from sint_counter [OF this] assms show ?thesis by simp
qed

lemma length_walk_files: "length (walk_files d fs) = count_files fs"
proof -
  have "length (concat (map (\<lambda>(sub, files). map (join_path (d @ sub)) files) t)) =
      sum_list (map (\<lambda>(sub, files). length files) t)" for t :: "(string \<times> string list) list"
    by (induction t) auto
  then show ?thesis by (simp add: walk_files_def count_files_def)
qed

lemma STOP_not_walked: "''STOP'' \<notin> set (walk_files directory_to_scan fs)"
  by (auto simp: walk_files_def directory_to_scan_def join_path_def)

lemma main_loaded:
  "load_baseline_metadata j (zeros (count_files fs)) = Inr arr \<Longrightarrow>
   main j fs cpu schedule =
     Inr (run fs arr buffer_size schedule (start (walk_files directory_to_scan fs) (cpu - 2)))"
  by (simp add: main_def)

lemma main_failed:
  "load_baseline_metadata j (zeros (count_files fs)) = Inl e \<Longrightarrow> main j fs cpu schedule = Inl e"
  by (simp add: main_def)

lemma main_InrD:
  assumes "main j fs cpu schedule = Inr s"
  obtains arr where "load_baseline_metadata j (zeros (count_files fs)) = Inr arr"
    and "s = run fs arr buffer_size schedule (start (walk_files directory_to_scan fs) (cpu - 2))"
  using assms by (auto simp: main_def split: sum.splits)

lemma accounted_main:
  assumes "main j fs cpu schedule = Inr s"
    and "load_baseline_metadata j (zeros (count_files fs)) = Inr arr"
  shows "\<exists>D n. accounted fs arr (walk_files directory_to_scan fs) s D n"
proof -
  from main_loaded [OF assms(2), of cpu schedule] assms(1)
  have s: "s = run fs arr buffer_size schedule (start (walk_files directory_to_scan fs) (cpu - 2))"
    by simp
  show ?thesis unfolding s
    by (rule accounted_run [OF STOP_not_walked accounted_start])
qed

lemma accounted_counter:
  assumes "accounted fs arr paths s D n"
  shows "n + outstanding s = length paths"
proof -
  from assms have "mset paths = open_tasks s + D" by (simp add: accounted_def)
  then have "length paths = size (open_tasks s) + size D" by (metis size_mset size_union)
  moreover from assms have "size D = n + sum_list (map busy (workers s))"
    by (simp add: accounted_def)
  ultimately show ?thesis by (simp add: outstanding_def)
qed

lemma exited_sums:
  assumes "list_all (\<lambda>w. w = Exited) ws"
  shows "sum_list (map holding ws) = {#}" and "sum_list (map emitting ws) = {#}"
    and "sum_list (map busy ws) = 0"
  using assms by (induction ws) auto

lemma accounted_completed:
  assumes acc: "accounted fs arr paths s D n" and len: "length paths = count_files fs"
    and fin: "completed fs s"
  shows "D = mset paths" and "mset (alert_list s) = alerts_of fs arr (mset paths)"
    and "sint (progress_counter s) = int (length paths)"
    and "pending s = []" and "queue s = []"
proof -
  from fin have ex: "list_all (\<lambda>w. w = Exited) (workers s)"
    and reach: "\<not> sint (progress_counter s) < int (length paths)"
    by (simp_all add: completed_def len)
  note z = exited_sums [OF ex]
  from accounted_counter [OF acc] have le: "n \<le> length paths" by simp
  from acc have c: "progress_counter s = word_of_nat n" by (simp add: accounted_def)
  from counter_reached [OF le] reach c have n: "n = length paths" by simp
  with accounted_counter [OF acc] have "outstanding s = 0" by simp
  then have t: "open_tasks s = {#}" by (simp add: outstanding_def)
  then show "pending s = []" and "queue s = []" by (simp_all add: open_tasks_def)
  from acc t show d: "D = mset paths" by (simp add: accounted_def)
  from acc z show "mset (alert_list s) = alerts_of fs arr (mset paths)"
    by (simp add: accounted_def d)
  have "sint (progress_counter s) < 2 ^ 31"
    using sint_lt [of "progress_counter s"] by simp
  with reach have "int (length paths) < 2 ^ 31" by linarith
  then have "length paths < 2 ^ 31" by simp
  from sint_counter [OF this] show "sint (progress_counter s) = int (length paths)"
    by (simp add: c n)
qed

subsection \<open>The comparison and the lookup\<close>

lemma lookup_None_iff:
  "baseline_lookup arr h = None \<longleftrightarrow> f64_of_nat h \<notin> set (map hash_cell arr)"
  by (auto simp: baseline_lookup_def find_None_iff image_iff)

lemma first_index_find:
  "find (\<lambda>r. hash_cell r = x) arr = Some r \<Longrightarrow>
   first_index (map hash_cell arr) x < length arr \<and> arr ! first_index (map hash_cell arr) x = r"
  by (induction arr) (auto split: if_splits)

lemma compare_with_baseline_lookup:
  "compare_with_baseline arr md p =
     (case baseline_lookup arr (md_hash md) of
        None \<Rightarrow> [NewFile p]
      | Some r \<Rightarrow>
          (if f64_of_nat (md_size md) \<noteq> size_cell r then [SizeChanged p] else []) @
          (if md_timestamp md \<noteq> timestamp_cell r then [TimestampChanged p] else []))"
proof (cases "baseline_lookup arr (md_hash md)")
  case None
  then show ?thesis
    using lookup_None_iff [of arr "md_hash md"] by (simp add: compare_with_baseline_def)
next
  case (Some r)
  then have "f64_of_nat (md_hash md) \<in> set (map hash_cell arr)"
    using lookup_None_iff [of arr "md_hash md"] by auto
  moreover from Some first_index_find [of "f64_of_nat (md_hash md)" arr r]
  have "first_index (map hash_cell arr) (f64_of_nat (md_hash md)) < length arr"
    and "arr ! first_index (map hash_cell arr) (f64_of_nat (md_hash md)) = r"
    by (simp_all add: baseline_lookup_def)
  ultimately show ?thesis using Some
    by (simp add: compare_with_baseline_def Let_def)
qed

lemma worker_task_content:
  "read_file fs p = Content d sz ts \<Longrightarrow>
   worker_task fs arr p =
     compare_with_baseline arr \<lparr>md_hash = take_bit 64 d, md_size = sz, md_timestamp = ts\<rparr> p"
  by (simp add: worker_task_def calculate_file_metadata_def)

lemma worker_task_raises:
  "read_file fs p = Raises e \<Longrightarrow>
   worker_task fs arr p = (if e = FileNotFoundError then [] else [ProcessingError p e])"
  by (cases e) (simp_all add: worker_task_def calculate_file_metadata_def)

lemma worker_task_path: "a \<in> set (worker_task fs arr p) \<Longrightarrow> alert_path a = p"
  by (auto simp: worker_task_def compare_with_baseline_def Let_def
      split: sum.splits option.splits if_splits)

lemma alerts_of_mset: "alerts_of fs arr (mset ps) = mset (concat (map (worker_task fs arr) ps))"
  by (induction ps) (simp_all add: ac_simps)

lemma alerts_of_member:
  "a \<in># alerts_of fs arr M \<Longrightarrow> alert_path a \<in># M \<and> a \<in> set (worker_task fs arr (alert_path a))"
  by (induction M) (auto dest: worker_task_path)

lemma alerts_of_filter_absent:
  "p \<notin># M \<Longrightarrow> filter_mset (\<lambda>a. alert_path a = p) (alerts_of fs arr M) = {#}"
  by (auto dest: alerts_of_member)

lemma alerts_of_filter_distinct:
  assumes "distinct ps" and "p \<in> set ps"
  shows "filter_mset (\<lambda>a. alert_path a = p) (alerts_of fs arr (mset ps)) =
    mset (worker_task fs arr p)"
proof -
  define rest where "rest = mset (remove1 p ps)"
  from assms have m: "mset ps = add_mset p rest" by (simp add: rest_def)
  from assms have "p \<notin> set (remove1 p ps)" by simp
  then have "p \<notin># rest" unfolding rest_def by (metis set_mset_mset)
  from alerts_of_filter_absent [OF this, of fs arr]
  have "filter_mset (\<lambda>a. alert_path a = p) (alerts_of fs arr (mset ps)) =
      filter_mset (\<lambda>a. alert_path a = p) (mset (worker_task fs arr p))"
    by (simp add: m)
  also have "\<dots> = filter_mset (\<lambda>a. True) (mset (worker_task fs arr p))"
    by (rule filter_mset_cong0) (auto dest: worker_task_path)
  finally show ?thesis by simp
qed

lemma accounted_alerts:
  assumes "accounted fs arr paths s D n"
  shows "mset (alert_list s) \<subseteq># alerts_of fs arr (mset paths)"
proof -
  from assms have "mset (alert_list s) \<subseteq># alerts_of fs arr D"
    by (metis accounted_def mset_subset_eq_add_left)
  also from assms have "\<dots> \<subseteq># alerts_of fs arr (mset paths)"
    by (simp add: accounted_def)
  finally show ?thesis .
qed

subsection \<open>Loading the snapshot\<close>

lemma setitem_Inr:
  "setitem arr i j e k = Inr arr' \<longleftrightarrow>
     i < length arr \<and> (\<exists>x. cell_of e k = Inr x \<and> arr' = arr[i := set_column j x (arr ! i)])"
  by (auto simp: setitem_def cell_of_def split: sum.splits)

lemma setitem_Inl_index:
  "length arr \<le> i \<Longrightarrow> setitem arr i j e k = (case getitem e k of Inl err \<Rightarrow> Inl err | Inr v \<Rightarrow> Inl IndexError)"
  by (simp add: setitem_def split: sum.splits)

lemma set_column_numeral [simp]:
  "set_column 1 x r = r\<lparr>size_cell := x\<rparr>" "set_column 2 x r = r\<lparr>timestamp_cell := x\<rparr>"
  by (simp_all add: numeral_2_eq_2)

lemma store_entry_Inr:
  assumes "store_entry arr i e = Inr arr'"
  shows "i < length arr" and "\<not> rejected e" and "length arr' = length arr"
    and "k \<noteq> i \<Longrightarrow> arr' ! k = arr ! k"
    and "cell_of e ''hash'' = Inr (hash_cell (arr' ! i))"
  using assms
  by (auto simp: store_entry_def setitem_Inr rejected_def split: sum.splits)



lemma store_entries_Inr:
  assumes "store_entries i es arr = Inr arr'"
  shows "length arr' = length arr"
    and "es \<noteq> [] \<Longrightarrow> i + length es \<le> length arr"
    and "\<not> list_ex rejected es"
    and "k < i \<or> i + length es \<le> k \<Longrightarrow> arr' ! k = arr ! k"
    and "k < length es \<Longrightarrow> cell_of (es ! k) ''hash'' = Inr (hash_cell (arr' ! (i + k)))"
  using assms
proof (induction es arbitrary: i arr k)
  case Nil
  {
    case 1 then show ?case by simp
  next
    case 2 then show ?case by simp
  next
    case 3 then show ?case by simp
  next
    case 4 then show ?case by simp
  next
    case 5 then show ?case by simp
  }
next
  case (Cons e es)
  {
    case 1
    then obtain a where a: "store_entry arr i e = Inr a" "store_entries (Suc i) es a = Inr arr'"
      by (auto split: sum.splits)
    from Cons.IH(1) [OF a(2)] store_entry_Inr(3) [OF a(1)] show ?case by simp
  next
    case 2
    then obtain a where a: "store_entry arr i e = Inr a" "store_entries (Suc i) es a = Inr arr'"
      by (auto split: sum.splits)
    from Cons.IH(2) [OF _ a(2)] store_entry_Inr(1,3) [OF a(1)] show ?case
      by (cases es) auto
  next
    case 3
    then obtain a where a: "store_entry arr i e = Inr a" "store_entries (Suc i) es a = Inr arr'"
      by (auto split: sum.splits)
    from Cons.IH(3) [OF a(2)] store_entry_Inr(2) [OF a(1)] show ?case by simp
  next
    case 4
    then obtain a where a: "store_entry arr i e = Inr a" "store_entries (Suc i) es a = Inr arr'"
      by (auto split: sum.splits)
    from 4(1) have "k < Suc i \<or> Suc i + length es \<le> k" and "k \<noteq> i" by auto
    from Cons.IH(4) [OF this(1) a(2)] store_entry_Inr(4) [OF a(1) this(2)] show ?case by simp
  next
    case 5
    then obtain a where a: "store_entry arr i e = Inr a" "store_entries (Suc i) es a = Inr arr'"
      by (auto split: sum.splits)
    show ?case
    proof (cases k)
      case 0
      have "arr' ! i = a ! i" by (rule Cons.IH(4) [OF _ a(2)]) simp
      with store_entry_Inr(5) [OF a(1)] 0 show ?thesis by simp
    next
      case (Suc j)
      with 5(1) have "j < length es" by simp
      from Cons.IH(5) [OF this a(2)] Suc show ?thesis by simp
    qed
  }
qed

lemma store_entries_rejected: "list_ex rejected es \<Longrightarrow> isl (store_entries i es arr)"
  using store_entries_Inr(3) [of i es arr] by (cases "store_entries i es arr") auto





subsection \<open>Every run can complete\<close>

text \<open>
  With at least one worker and fewer than \<open>2 ^ 31\<close> files, \<^verbatim>\<open>main\<close> has a schedule under
  which it gets past its progress loop and its joins, whatever the files are.
\<close>

lemma run_append:
  "run fs arr cap (xs @ ys) s = run fs arr cap ys (run fs arr cap xs s)"
  by (simp add: run_def)

lemma run_Cons: "run fs arr cap (a # xs) s = run fs arr cap xs (step fs arr cap s a)"
  by (simp add: run_def)

lemma run_Nil: "run fs arr cap [] s = s"
  by (simp add: run_def)

lemma run_emit:
  assumes "workers s = Emitting as # ws"
  shows "run fs arr cap (replicate (length as) (Worker 0)) s =
    s\<lparr>alert_list := alert_list s @ as, workers := Emitting [] # ws\<rparr>"
  using assms
proof (induction as arbitrary: s)
  case Nil
  then show ?case by (simp add: run_Nil)
next
  case (Cons a as)
  let ?t = "s\<lparr>alert_list := alert_list s @ [a], workers := Emitting as # ws\<rparr>"
  from Cons.prems have st: "worker_process fs arr 0 s = ?t"
    by (simp add: worker_process_def)
  have "workers ?t = Emitting as # ws" by simp
  from Cons.IH [OF this] show ?case by (simp add: run_Cons st)
qed

lemma run_task:
  assumes "0 < cap" and "p \<noteq> ''STOP''"
  shows "run fs arr cap (task_schedule fs arr p)
      \<lparr>pending = p # rest, producer = Putting, queue = [], stop_event = False,
       progress_counter = c, alert_list = A, workers = Checking # ws\<rparr> =
      \<lparr>pending = rest, producer = Putting, queue = [], stop_event = False,
       progress_counter = c + 1, alert_list = A @ worker_task fs arr p,
       workers = Checking # ws\<rparr>"
proof -
  let ?s3 = "\<lparr>pending = rest, producer = Waiting, queue = [], stop_event = False,
       progress_counter = c, alert_list = A,
       workers = Emitting (worker_task fs arr p) # ws\<rparr>"
  have a: "run fs arr cap [Producer, Worker 0, Worker 0, Worker 0]
      \<lparr>pending = p # rest, producer = Putting, queue = [], stop_event = False,
       progress_counter = c, alert_list = A, workers = Checking # ws\<rparr> = ?s3"
    using assms by (simp add: run_def producer_process_def worker_process_def)
  have b: "run fs arr cap (replicate (length (worker_task fs arr p)) (Worker 0)) ?s3 =
      ?s3\<lparr>alert_list := alert_list ?s3 @ worker_task fs arr p, workers := Emitting [] # ws\<rparr>"
    by (rule run_emit) simp
  show ?thesis
    unfolding task_schedule_def run_append a b
    using assms by (simp add: run_def producer_process_def worker_process_def)
qed

lemma run_tasks:
  assumes "0 < cap" and "''STOP'' \<notin> set paths"
  shows "run fs arr cap (concat (map (task_schedule fs arr) paths))
      \<lparr>pending = paths @ rest, producer = Putting, queue = [], stop_event = False,
       progress_counter = c, alert_list = A, workers = Checking # ws\<rparr> =
      \<lparr>pending = rest, producer = Putting, queue = [], stop_event = False,
       progress_counter = c + of_nat (length paths),
       alert_list = A @ concat (map (worker_task fs arr) paths),
       workers = Checking # ws\<rparr>"
  using assms(2)
proof (induction paths arbitrary: c A)
  case Nil
  then show ?case by (simp add: run_Nil)
next
  case (Cons p paths)
  then have "p \<noteq> ''STOP''" and "''STOP'' \<notin> set paths" by auto
  from run_task [OF assms(1) this(1)] Cons.IH [OF this(2)]
  show ?case by (simp add: run_append ac_simps)
qed

lemma run_exit:
  assumes "queue s = []" and "stop_event s" and "workers s = replicate k Exited @ replicate m Checking"
  shows "run fs arr cap (concat (map (\<lambda>i. [Worker i, Worker i]) [k..<k + m])) s =
    s\<lparr>workers := replicate (k + m) Exited\<rparr>"
  using assms
proof (induction m arbitrary: k s)
  case 0
  then show ?case by (simp add: run_Nil)
next
  case (Suc m)
  let ?t = "s\<lparr>workers := replicate (Suc k) Exited @ replicate m Checking\<rparr>"
  have nth: "(replicate k Exited @ Checking # replicate m Checking) ! k = Checking"
    by (simp add: nth_append)
  have upd: "(replicate k Exited @ w # replicate m Checking)[k := w'] =
      replicate k Exited @ w' # replicate m Checking" for w w' :: worker_pc
    by (simp add: list_update_append)
  have nth': "(replicate k Exited @ CheckingStop # replicate m Checking) ! k = CheckingStop"
    by (simp add: nth_append)
  have two: "run fs arr cap [Worker k, Worker k] s = ?t"
    using Suc.prems
    by (simp add: run_def worker_process_def nth nth' upd replicate_app_Cons_same)
  have "queue ?t = []" "stop_event ?t"
    "workers ?t = replicate (Suc k) Exited @ replicate m Checking"
    using Suc.prems by simp_all
  from Suc.IH [OF this]
  have "run fs arr cap (concat (map (\<lambda>i. [Worker i, Worker i]) [Suc k..<Suc k + m])) ?t =
      s\<lparr>workers := replicate (Suc k + m) Exited\<rparr>" by simp
  moreover have "[k..<k + Suc m] = k # [Suc k..<Suc k + m]"
    by (simp add: upt_rec)
  ultimately show ?case
    using two by (simp add: run_Cons run_def)
qed


lemma completing_schedule_run:
  assumes "0 < cap" and "''STOP'' \<notin> set paths"
  shows "run fs arr cap (completing_schedule fs arr paths (Suc n)) (start paths (Suc n)) =
    \<lparr>pending = [], producer = Finished, queue = [], stop_event = True,
     progress_counter = of_nat (length paths),
     alert_list = concat (map (worker_task fs arr) paths),
     workers = replicate (Suc n) Exited\<rparr>"
proof -
  let ?s1 = "\<lparr>pending = [], producer = Putting, queue = [], stop_event = False,
     progress_counter = of_nat (length paths) :: 32 word,
     alert_list = concat (map (worker_task fs arr) paths),
     workers = Checking # replicate n Checking\<rparr>"
  let ?s2 = "?s1\<lparr>stop_event := True, producer := Finished\<rparr>"
  have a: "run fs arr cap (concat (map (task_schedule fs arr) paths)) (start paths (Suc n)) = ?s1"
    using run_tasks [OF assms, of fs arr "[]" 0 "[]" "replicate n Checking"]
    by (simp add: start_def)
  have b: "run fs arr cap [Producer] ?s1 = ?s2"
    by (simp add: run_def producer_process_def)
  have "workers ?s2 = replicate 0 Exited @ replicate (Suc n) Checking" by simp
  from run_exit [OF _ _ this, of fs arr cap]
  have c: "run fs arr cap (concat (map (\<lambda>i. [Worker i, Worker i]) [0..<Suc n])) ?s2 =
      ?s2\<lparr>workers := replicate (Suc n) Exited\<rparr>" by simp
  show ?thesis
    unfolding completing_schedule_def run_append a b c by simp
qed

lemma completing_schedule_exists:
  assumes "load_baseline_metadata baseline_json (zeros (count_files fs)) = Inr shared_array"
    and "3 \<le> cpu_count" and "count_files fs < 2 ^ 31"
  shows "\<exists>schedule s. main baseline_json fs cpu_count schedule = Inr s \<and> completed fs s \<and>
    alert_list s = concat (map (worker_task fs shared_array) (walk_files directory_to_scan fs))"
proof -
  from assms(2) obtain n where n: "cpu_count - 2 = Suc n" by (cases "cpu_count - 2") auto
  let ?paths = "walk_files directory_to_scan fs"
  let ?schedule = "completing_schedule fs shared_array ?paths (Suc n)"
  let ?s = "\<lparr>pending = [], producer = Finished, queue = [], stop_event = True,
     progress_counter = of_nat (length ?paths),
     alert_list = concat (map (worker_task fs shared_array) ?paths),
     workers = replicate (Suc n) Exited\<rparr>"
  have "main baseline_json fs cpu_count ?schedule = Inr ?s"
    using main_loaded [OF assms(1), of cpu_count ?schedule]
      completing_schedule_run [of buffer_size ?paths fs shared_array n]
    by (simp add: n STOP_not_walked buffer_size_def)
  moreover have "list_all (\<lambda>w. w = Exited) (replicate (Suc n) Exited)"
    unfolding list_all_iff by simp
  then have "completed fs ?s"
    using sint_counter [OF assms(3)]
    by (simp add: completed_def length_walk_files del: replicate.simps)
  ultimately show ?thesis by force
qed

subsection \<open>The scenarios\<close>

lemma replicate_numeral [simp]: "replicate (numeral k) x = x # replicate (pred_numeral k) x"
  by (simp add: numeral_eq_Suc)

lemma names_differ [simp]:
  "file_a \<noteq> file_b" "file_a \<noteq> file_c" "file_b \<noteq> file_c"
  "file_b \<noteq> file_a" "file_c \<noteq> file_a" "file_c \<noteq> file_b"
  "file_a \<noteq> ''STOP''" "file_b \<noteq> ''STOP''" "file_c \<noteq> ''STOP''"
  by (simp_all add: file_a_def file_b_def file_c_def join_path_def directory_to_scan_def)

lemma walk_flat_tree:
  "walk_files directory_to_scan (flat_tree [''a.txt''] f) = [file_a]"
  "walk_files directory_to_scan (flat_tree [''b.txt''] f) = [file_b]"
  "walk_files directory_to_scan (flat_tree [''a.txt'', ''b.txt''] f) = [file_a, file_b]"
  "walk_files directory_to_scan (flat_tree [''a.txt'', ''b.txt'', ''c.txt''] f) =
     [file_a, file_b, file_c]"
  by (simp_all add: walk_files_def flat_tree_def file_a_def file_b_def file_c_def)

lemma count_flat_tree [simp]: "count_files (flat_tree names f) = length names"
  by (simp add: count_files_def flat_tree_def)

lemma read_flat_tree [simp]: "read_file (flat_tree names f) = f"
  by (simp add: flat_tree_def)

lemma cell_of_record_of:
  assumes "0 \<le> h" "h < 2 ^ 53" "0 \<le> n" "n < 2 ^ 53"
  shows "cell_of (record_of h n t) ''hash'' = Inr (of_int h)"
    and "cell_of (record_of h n t) ''size'' = Inr (of_int n)"
    and "cell_of (record_of h n t) ''timestamp'' = Inr t"
  using assms
  by (simp_all add: cell_of_def getitem_def record_of_def to_float64_exact del: to_float64.simps(1))

lemma row_updates:
  "r\<lparr>hash_cell := x, size_cell := y, timestamp_cell := z\<rparr> =
   \<lparr>hash_cell = x, size_cell = y, timestamp_cell = z\<rparr>"
  by (cases r) simp

lemma store_entry_cells:
  assumes "i < length arr" and "cell_of e ''hash'' = Inr x" and "cell_of e ''size'' = Inr y"
    and "cell_of e ''timestamp'' = Inr z"
  shows "store_entry arr i e =
    Inr (arr[i := \<lparr>hash_cell = x, size_cell = y, timestamp_cell = z\<rparr>])"
  using assms
  by (auto simp: store_entry_def setitem_def cell_of_def row_updates split: sum.splits)

lemma store_record_of:
  assumes "i < length arr" "0 \<le> h" "h < 2 ^ 53" "0 \<le> n" "n < 2 ^ 53"
  shows "store_entry arr i (record_of h n t) =
    Inr (arr[i := \<lparr>hash_cell = of_int h, size_cell = of_int n, timestamp_cell = t\<rparr>])"
  by (rule store_entry_cells [OF assms(1) cell_of_record_of [OF assms(2-5)]])

lemma load_errors:
  "load_baseline_metadata (Records [record_of 1 10 100]) (zeros (count_files errors_fs)) =
     Inr [\<lparr>hash_cell = 1, size_cell = 10, timestamp_cell = 100\<rparr>, zero_row, zero_row]"
  by (simp add: errors_fs_def load_baseline_metadata_def zeros_def store_record_of)

lemma schedules:
  "sequential_schedule (Suc 0) = [Producer, Producer, Producer,
     Worker 0, Worker 0, Worker 0, Worker 0, Worker 0, Worker 0, Worker 0, Worker 0]"
  "sequential_schedule 1 = [Producer, Producer, Producer,
     Worker 0, Worker 0, Worker 0, Worker 0, Worker 0, Worker 0, Worker 0, Worker 0]"
  "sequential_schedule 2 = [Producer, Producer, Producer, Producer, Producer,
     Worker 0, Worker 0, Worker 0, Worker 0, Worker 0, Worker 0, Worker 0,
     Worker 0, Worker 0, Worker 0, Worker 0, Worker 0, Worker 0, Worker 0]"
  "sequential_schedule 3 = [Producer, Producer, Producer, Producer, Producer, Producer, Producer,
     Worker 0, Worker 0, Worker 0, Worker 0, Worker 0, Worker 0, Worker 0, Worker 0, Worker 0,
     Worker 0, Worker 0, Worker 0, Worker 0, Worker 0, Worker 0, Worker 0, Worker 0, Worker 0,
     Worker 0, Worker 0]"
  by (simp_all add: sequential_schedule_def)

lemmas run_simps = run_def producer_process_def worker_process_def worker_task_def
  calculate_file_metadata_def compare_with_baseline_def start_def buffer_size_def
  f64_of_nat_exact take_bit_eq_mod zero_row_def

lemma run_errors:
  "main (Records [record_of 1 10 100]) errors_fs 3 (sequential_schedule 3) =
     Inr (final_state 3 [ProcessingError file_c PermissionError])"
  using main_loaded [OF load_errors, of 3 "sequential_schedule 3"]
  by (simp add: schedules errors_fs_def walk_flat_tree run_simps final_state_def)

lemma completed_final:
  "completed (flat_tree [x] f) (final_state 1 alerts)"
  "completed (flat_tree [x, y] f) (final_state 2 alerts)"
  "completed (flat_tree [x, y, z] f) (final_state 3 alerts)"
  by (simp_all add: completed_def final_state_def)

lemma load_empty:
  "load_baseline_metadata (Records []) (zeros (count_files vanished_fs)) = Inr [zero_row]"
  by (simp add: vanished_fs_def load_baseline_metadata_def zeros_def)

lemma bit_length_eq: "2 ^ k \<le> n \<Longrightarrow> n < 2 ^ Suc k \<Longrightarrow> bit_length n = Suc k"
proof (induction k arbitrary: n)
  case 0
  then have "n = 1" by simp
  then show ?case by (simp add: bit_length.simps)
next
  case (Suc k)
  then have "2 ^ k \<le> n div 2" and "n div 2 < 2 ^ Suc k" by auto
  from Suc.IH [OF this] have "bit_length (n div 2) = Suc k" .
  moreover from Suc.prems have "n \<noteq> 0" by auto
  ultimately show ?case by (simp add: bit_length.simps [of n])
qed

lemma bit_length_example:
  "bit_length 9007199254740993 = 54" "bit_length 9007199254740992 = 54"
proof -
  show "bit_length 9007199254740993 = 54"
    using bit_length_eq [of 53 9007199254740993] by simp
  show "bit_length 9007199254740992 = 54"
    using bit_length_eq [of 53 9007199254740992] by simp
qed

lemma f64_round_example:
  "f64_round 9007199254740993 = 9007199254740992"
  "f64_round 9007199254740992 = 9007199254740992"
  by (simp_all add: f64_round_def bit_length_example)

lemma f64_example:
  "f64_of_nat 9007199254740993 = 9007199254740992"
  "to_float64 (JInt 9007199254740992) = Inr 9007199254740992"
  by (simp_all add: f64_of_nat_def f64_round_example bit_length_example)

lemma load_rounded:
  "load_baseline_metadata (Records [record_of 9007199254740992 10 100])
     (zeros (count_files rounded_fs)) =
   Inr [\<lparr>hash_cell = 9007199254740992, size_cell = 10, timestamp_cell = 100\<rparr>]"
proof -
  have "cell_of (record_of 9007199254740992 10 100) ''hash'' = Inr 9007199254740992"
    by (simp add: cell_of_def getitem_def record_of_def f64_example del: to_float64.simps)
  moreover have "cell_of (record_of 9007199254740992 10 100) ''size'' = Inr 10"
    by (simp add: cell_of_def getitem_def record_of_def to_float64_exact del: to_float64.simps(1))
  moreover have "cell_of (record_of 9007199254740992 10 100) ''timestamp'' = Inr 100"
    by (simp add: cell_of_def getitem_def record_of_def)
  ultimately show ?thesis
    by (simp add: rounded_fs_def load_baseline_metadata_def zeros_def store_entry_cells)
qed

lemma run_rounded:
  "main (Records [record_of 9007199254740992 10 100]) rounded_fs 3 (sequential_schedule 1) =
     Inr (final_state 1 [])"
  using main_loaded [OF load_rounded, of 3 "sequential_schedule 1"]
  by (simp add: schedules rounded_fs_def walk_flat_tree run_simps final_state_def f64_example)

lemma load_copies:
  "load_baseline_metadata (Records [record_of 1 10 100, record_of 1 10 200])
     (zeros (count_files copies_fs)) =
   Inr [\<lparr>hash_cell = 1, size_cell = 10, timestamp_cell = 100\<rparr>,
        \<lparr>hash_cell = 1, size_cell = 10, timestamp_cell = 200\<rparr>]"
  by (simp add: copies_fs_def load_baseline_metadata_def zeros_def store_record_of)

lemma run_copies:
  "main (Records [record_of 1 10 100, record_of 1 10 200]) copies_fs 3 (sequential_schedule 2) =
     Inr (final_state 2 [TimestampChanged file_b])"
  using main_loaded [OF load_copies, of 3 "sequential_schedule 2"]
  by (simp add: schedules copies_fs_def walk_flat_tree run_simps final_state_def)

lemma load_two_files:
  "load_baseline_metadata (Records [record_of 1 10 100, record_of 2 20 200])
     (zeros (count_files two_files_fs)) =
   Inr [\<lparr>hash_cell = 1, size_cell = 10, timestamp_cell = 100\<rparr>,
        \<lparr>hash_cell = 2, size_cell = 20, timestamp_cell = 200\<rparr>]"
  by (simp add: two_files_fs_def load_baseline_metadata_def zeros_def store_record_of)

lemma run_two_files:
  "main (Records [record_of 1 10 100, record_of 2 20 200]) two_files_fs 3
     (sequential_schedule 2) = Inr (final_state 2 [])"
  using main_loaded [OF load_two_files, of 3 "sequential_schedule 2"]
  by (simp add: schedules two_files_fs_def walk_flat_tree run_simps final_state_def)

lemma load_new_file:
  "load_baseline_metadata (Records [record_of 1 10 100]) (zeros (count_files new_file_fs)) =
   Inr [\<lparr>hash_cell = 1, size_cell = 10, timestamp_cell = 100\<rparr>]"
  by (simp add: new_file_fs_def load_baseline_metadata_def zeros_def store_record_of)

lemma run_new_file:
  "main (Records [record_of 1 10 100]) new_file_fs 3 (sequential_schedule 1) =
     Inr (final_state 1 [NewFile file_b])"
  using main_loaded [OF load_new_file, of 3 "sequential_schedule 1"]
  by (simp add: schedules new_file_fs_def walk_flat_tree run_simps final_state_def)

lemma load_malformed:
  "load_baseline_metadata (Records [malformed_record]) (zeros (count_files new_file_fs)) =
   Inr [\<lparr>hash_cell = - 1, size_cell = 5 / 2, timestamp_cell = 100\<rparr>]"
proof -
  have "bit_length 1 = 1" using bit_length_eq [of 0 1] by simp
  then have h: "cell_of malformed_record ''hash'' = Inr (- 1)"
    by (simp add: cell_of_def getitem_def malformed_record_def f64_round_exact)
  have s: "cell_of malformed_record ''size'' = Inr (5 / 2)"
    and t: "cell_of malformed_record ''timestamp'' = Inr 100"
    by (simp_all add: cell_of_def getitem_def malformed_record_def)
  have "store_entry [zero_row] 0 malformed_record =
      Inr ([zero_row][0 := \<lparr>hash_cell = - 1, size_cell = 5 / 2, timestamp_cell = 100\<rparr>])"
    by (rule store_entry_cells [OF _ h s t]) simp
  then show ?thesis
    by (simp add: new_file_fs_def load_baseline_metadata_def zeros_def)
qed

subsection \<open>A run in which a queued path is never taken\<close>

text \<open>
  Once the producer has finished and every worker has left its loop, no step changes
  the state: what is still in the queue stays there and the counter stays where it is.
\<close>

lemma worker_process_Exited:
  assumes "list_all (\<lambda>w. w = Exited) (workers s)"
  shows "worker_process fs arr i s = s"
proof (cases "length (workers s) \<le> i")
  case True
  then show ?thesis by (simp add: worker_process_def)
next
  case False
  with assms have "workers s ! i = Exited" by (simp add: list_all_length)
  with False show ?thesis by (simp add: worker_process_def)
qed

lemma step_stopped:
  assumes "producer s = Finished" and "list_all (\<lambda>w. w = Exited) (workers s)"
  shows "step fs arr cap s a = s"
  using assms by (cases a) (simp_all add: producer_process_def worker_process_Exited)

lemma run_stopped:
  assumes "producer s = Finished" and "list_all (\<lambda>w. w = Exited) (workers s)"
  shows "run fs arr cap schedule s = s"
  using assms by (induction schedule) (simp_all add: run_Nil run_Cons step_stopped)

lemma run_early_exit:
  "main (Records [record_of 1 10 100]) new_file_fs 3 early_exit_schedule = Inr lost_task_state"
  using main_loaded [OF load_new_file, of 3 early_exit_schedule]
  by (simp add: early_exit_schedule_def new_file_fs_def walk_flat_tree run_simps
      lost_task_state_def)

subsection \<open>A fingerprint 0 and an empty baseline\<close>

lemma load_zero_fingerprint:
  "load_baseline_metadata (Records []) (zeros (count_files zero_fingerprint_fs)) = Inr [zero_row]"
  by (simp add: zero_fingerprint_fs_def load_baseline_metadata_def zeros_def)

lemma run_zero_fingerprint:
  "main (Records []) zero_fingerprint_fs 3 (sequential_schedule 1) =
     Inr (final_state 1 [SizeChanged file_a, TimestampChanged file_a])"
  using main_loaded [OF load_zero_fingerprint, of 3 "sequential_schedule 1"]
  by (simp add: schedules zero_fingerprint_fs_def walk_flat_tree run_simps final_state_def)

subsection \<open>What the counter and the alert list hold in every run\<close>

text \<open>
  In every state of every schedule of \<^verbatim>\<open>main\<close> the counter is the number of discovered
  paths minus the tasks not yet counted (not yet put, queued, or in a worker's hands),
  as a 32-bit C \<^verbatim>\<open>int\<close>: a worker adds one per task it took, on each of its three
  paths, and nothing else changes the counter. If \<^verbatim>\<open>main\<close> gets past its progress loop
  and its joins, the counter read as a signed integer is the number of discovered paths.
  Whether a run gets there depends on the schedule.
\<close>

lemma counter_counts_every_task:
  assumes "main baseline_json fs cpu_count schedule = Inr s"
  shows "outstanding s \<le> count_files fs \<and>
    progress_counter s = of_nat (count_files fs - outstanding s) \<and>
    (completed fs s \<longrightarrow>
       sint (progress_counter s) = int (length (walk_files directory_to_scan fs)))"
proof -
  from assms obtain arr where l: "load_baseline_metadata baseline_json (zeros (count_files fs)) = Inr arr"
    by (rule main_InrD)
  from accounted_main [OF assms l] obtain D n
    where acc: "accounted fs arr (walk_files directory_to_scan fs) s D n" by blast
  from accounted_counter [OF acc] have n: "n + outstanding s = count_files fs"
    by (simp add: length_walk_files)
  then have "n = count_files fs - outstanding s" by simp
  moreover from acc have "progress_counter s = of_nat n" by (simp add: accounted_def)
  moreover have "sint (progress_counter s) = int (length (walk_files directory_to_scan fs))"
    if "completed fs s"
    by (rule accounted_completed(3) [OF acc length_walk_files that])
  moreover from n have "outstanding s \<le> count_files fs" by simp
  ultimately show ?thesis by blast
qed

text \<open>
  At a tree of three files, one readable, one vanished and one unreadable, with one
  worker that starts after the producer has finished: the run completes, nothing is
  outstanding, and the counter is 3.
\<close>

lemma counter_counts_every_task_example:
  "main (Records [record_of 1 10 100]) errors_fs 3 (sequential_schedule 3) =
     Inr (final_state 3 [ProcessingError file_c PermissionError]) \<and>
   completed errors_fs (final_state 3 [ProcessingError file_c PermissionError]) \<and>
   outstanding (final_state 3 [ProcessingError file_c PermissionError]) = 0 \<and>
   sint (progress_counter (final_state 3 [ProcessingError file_c PermissionError])) =
     int (length (walk_files directory_to_scan errors_fs)) \<and>
   length (walk_files directory_to_scan errors_fs) = 3"
proof -
  have c: "completed errors_fs (final_state 3 [ProcessingError file_c PermissionError])"
    by (simp add: errors_fs_def completed_final)
  from counter_counts_every_task [OF run_errors] c
  have "sint (progress_counter (final_state 3 [ProcessingError file_c PermissionError])) =
     int (length (walk_files directory_to_scan errors_fs))" by blast
  moreover have "outstanding (final_state 3 [ProcessingError file_c PermissionError]) = 0"
    by (simp add: outstanding_def open_tasks_def final_state_def)
  moreover have "length (walk_files directory_to_scan errors_fs) = 3"
    by (simp add: errors_fs_def walk_flat_tree)
  ultimately show ?thesis using run_errors c by blast
qed

text \<open>
  When the lookup of a file's fingerprint in the array finds no row, the worker's alerts
  for the path are the single NewFile alert whatever the size and the timestamp are;
  if the run has completed, the alerts of the run that name the path are exactly that
  one alert (the walker yields each path once); and the sequential loop appends the
  same.
\<close>

lemma new_file_reported_once:
  assumes "main baseline_json fs cpu_count schedule = Inr s"
    and "load_baseline_metadata baseline_json (zeros (count_files fs)) = Inr shared_array"
    and "completed fs s"
    and "distinct (walk_files directory_to_scan fs)"
    and "p \<in> set (walk_files directory_to_scan fs)"
    and "read_file fs p = Content d sz ts"
    and "baseline_lookup shared_array (take_bit 64 d) = None"
  shows "worker_task fs shared_array p = [NewFile p] \<and>
    filter (\<lambda>a. alert_path a = p) (alert_list s) = [NewFile p] \<and>
    process_loop fs shared_array (p # rest) alerts =
      process_loop fs shared_array rest (alerts @ [NewFile p])"
proof -
  from assms(6,7) have w: "worker_task fs shared_array p = [NewFile p]"
    by (simp add: worker_task_content compare_with_baseline_lookup)
  from accounted_main [OF assms(1,2)] obtain D n
    where "accounted fs shared_array (walk_files directory_to_scan fs) s D n" by blast
  from accounted_completed(2) [OF this length_walk_files assms(3)]
  have "mset (alert_list s) = alerts_of fs shared_array (mset (walk_files directory_to_scan fs))" .
  then have "mset (filter (\<lambda>a. alert_path a = p) (alert_list s)) =
      filter_mset (\<lambda>a. alert_path a = p)
        (alerts_of fs shared_array (mset (walk_files directory_to_scan fs)))"
    by (metis mset_filter)
  also have "\<dots> = mset (worker_task fs shared_array p)"
    by (rule alerts_of_filter_distinct [OF assms(4,5)])
  finally have "mset (filter (\<lambda>a. alert_path a = p) (alert_list s)) = {#NewFile p#}"
    by (simp only: w mset.simps)
  then have "filter (\<lambda>a. alert_path a = p) (alert_list s) = [NewFile p]"
    by (simp only: mset_single_iff)
  moreover from assms(6,7) have "process_loop fs shared_array (p # rest) alerts =
      process_loop fs shared_array rest (alerts @ [NewFile p])"
    by (simp add: calculate_file_metadata_def compare_with_baseline_lookup)
  ultimately show ?thesis using w by simp
qed

text \<open>
  At a tree with one file whose fingerprint 2 is not in a baseline that holds the
  fingerprint 1, with one worker that starts after the producer has finished.
\<close>

lemma new_file_reported_once_example:
  "main (Records [record_of 1 10 100]) new_file_fs 3 (sequential_schedule 1) =
     Inr (final_state 1 [NewFile file_b]) \<and>
   filter (\<lambda>a. alert_path a = file_b) (alert_list (final_state 1 [NewFile file_b])) =
     [NewFile file_b] \<and>
   process_loop new_file_fs [\<lparr>hash_cell = 1, size_cell = 10, timestamp_cell = 100\<rparr>]
     [file_b] [] = Inr [NewFile file_b]"
proof -
  have "completed new_file_fs (final_state 1 [NewFile file_b])"
    by (simp add: new_file_fs_def completed_final)
  moreover have "distinct (walk_files directory_to_scan new_file_fs)"
    and "file_b \<in> set (walk_files directory_to_scan new_file_fs)"
    by (simp_all add: new_file_fs_def walk_flat_tree)
  moreover have "read_file new_file_fs file_b = Content 2 20 200"
    by (simp add: new_file_fs_def)
  moreover have "baseline_lookup [\<lparr>hash_cell = 1, size_cell = 10, timestamp_cell = 100\<rparr>]
      (take_bit 64 2) = None"
    by (simp add: baseline_lookup_def f64_of_nat_exact take_bit_eq_mod)
  ultimately show ?thesis
    using new_file_reported_once [OF run_new_file load_new_file, of file_b 2 20 200 "[]" "[]"]
      run_new_file
    by simp
qed

section \<open>The claims\<close>

subsection \<open>C1: a failed hash is reported and counted\<close>

text \<open>
  Claim C1: for every path whose hashing fails (an unreadable file, or a file that
  vanished between discovery and read) the worker emits a ProcessingError alert for
  that path, advances the progress counter, and the run continues.

  The parallel worker does not do so for a vanished file. With one discovered file
  whose \<^verbatim>\<open>open\<close> raises \<^verbatim>\<open>FileNotFoundError\<close>, the run completes with the counter at 1
  and an empty alert list, while the sequential pipeline reports the same file as
  \<^verbatim>\<open>File not found\<close>.
\<close>

theorem vanished_file_counted_without_alert:
  "main (Records []) vanished_fs 3 (sequential_schedule 1) = Inr (final_state 1 []) \<and>
   main_linear (Records []) vanished_fs = Inr [FileNotFound file_a]"
  using main_loaded [OF load_empty, of 3 "sequential_schedule 1"]
  by (simp add: schedules vanished_fs_def walk_flat_tree run_simps final_state_def
      main_linear_def load_baseline_metadata_linear_def zeros_def process_files_def)

subsection \<open>C2: fingerprints are compared exactly\<close>

text \<open>
  Claim C2: the baseline lookup matches exactly when the worker's 64-bit fingerprint
  equals the stored baseline fingerprint as integers, with no loss of precision.

  The array holds float64 cells. A file whose fingerprint is \<open>2 ^ 53 + 1\<close> is looked up
  in a baseline loaded from a record with fingerprint \<open>2 ^ 53\<close>: the two integers
  differ, the lookup returns that record, and the completed run has no alert.
\<close>

theorem distinct_fingerprints_match_after_rounding:
  "calculate_file_metadata rounded_fs file_a =
     Inr (Some \<lparr>md_hash = 9007199254740993, md_size = 10, md_timestamp = 100\<rparr>) \<and>
   load_baseline_metadata (Records [record_of 9007199254740992 10 100])
     (zeros (count_files rounded_fs)) =
     Inr [\<lparr>hash_cell = 9007199254740992, size_cell = 10, timestamp_cell = 100\<rparr>] \<and>
   baseline_lookup [\<lparr>hash_cell = 9007199254740992, size_cell = 10, timestamp_cell = 100\<rparr>]
     9007199254740993 =
     Some \<lparr>hash_cell = 9007199254740992, size_cell = 10, timestamp_cell = 100\<rparr> \<and>
   main (Records [record_of 9007199254740992 10 100]) rounded_fs 3 (sequential_schedule 1) =
     Inr (final_state 1 [])"
proof (intro conjI)
  show "calculate_file_metadata rounded_fs file_a =
     Inr (Some \<lparr>md_hash = 9007199254740993, md_size = 10, md_timestamp = 100\<rparr>)"
    by (simp add: calculate_file_metadata_def rounded_fs_def take_bit_eq_mod)
  show "load_baseline_metadata (Records [record_of 9007199254740992 10 100])
     (zeros (count_files rounded_fs)) =
     Inr [\<lparr>hash_cell = 9007199254740992, size_cell = 10, timestamp_cell = 100\<rparr>]"
    by (rule load_rounded)
  show "baseline_lookup [\<lparr>hash_cell = 9007199254740992, size_cell = 10, timestamp_cell = 100\<rparr>]
     9007199254740993 =
     Some \<lparr>hash_cell = 9007199254740992, size_cell = 10, timestamp_cell = 100\<rparr>"
    by (simp add: baseline_lookup_def f64_example)
  show "main (Records [record_of 9007199254740992 10 100]) rounded_fs 3 (sequential_schedule 1) =
     Inr (final_state 1 [])"
    by (rule run_rounded)
qed

subsection \<open>C3: the counter advances once per task\<close>

text \<open>
  Claim C3: each worker advances the progress counter exactly once per claimed task,
  on the success path, the hash-failure path and the exception path alike, so the
  counter's final value equals the number of paths discovered by the walker.

  The counter does not reach that number in every run. The worker's loop condition
  \<^verbatim>\<open>not (queue.empty() and stop_event.is_set())\<close> reads the queue and the event one
  after the other. With one discovered file and one worker, the worker finds the queue
  empty, the producer then puts the path and sets the event, and the worker finds the
  event set and leaves its loop. The path stays in the queue, the counter stays at 0
  while one path was discovered, and whatever the processes are scheduled to do next
  the state stays the same: the progress loop \<^verbatim>\<open>while progress_counter.value < num_files\<close>
  of \<^verbatim>\<open>main\<close> does not end.
\<close>

theorem task_lost_when_worker_exits_early:
  "walk_files directory_to_scan new_file_fs = [file_b] \<and>
   main (Records [record_of 1 10 100]) new_file_fs 3 early_exit_schedule =
     Inr lost_task_state \<and>
   (\<forall>schedule. main (Records [record_of 1 10 100]) new_file_fs 3
      (early_exit_schedule @ schedule) = Inr lost_task_state) \<and>
   queue lost_task_state = [file_b] \<and>
   workers lost_task_state = [Exited] \<and>
   sint (progress_counter lost_task_state) = 0 \<and>
   \<not> completed new_file_fs lost_task_state"
proof (intro conjI allI)
  show "walk_files directory_to_scan new_file_fs = [file_b]"
    by (simp add: new_file_fs_def walk_flat_tree)
  show "main (Records [record_of 1 10 100]) new_file_fs 3 early_exit_schedule =
     Inr lost_task_state"
    by (rule run_early_exit)
  show "main (Records [record_of 1 10 100]) new_file_fs 3
      (early_exit_schedule @ schedule) = Inr lost_task_state" for schedule
  proof -
    have "run new_file_fs [\<lparr>hash_cell = 1, size_cell = 10, timestamp_cell = 100\<rparr>] buffer_size
        early_exit_schedule (start (walk_files directory_to_scan new_file_fs) (3 - 2)) =
      lost_task_state"
      using run_early_exit main_loaded [OF load_new_file, of 3 early_exit_schedule] by simp
    moreover have "run new_file_fs [\<lparr>hash_cell = 1, size_cell = 10, timestamp_cell = 100\<rparr>]
        buffer_size schedule lost_task_state = lost_task_state"
      by (rule run_stopped) (simp_all add: lost_task_state_def)
    ultimately show ?thesis
      using main_loaded [OF load_new_file, of 3 "early_exit_schedule @ schedule"]
      by (simp only: run_append)
  qed
  show "queue lost_task_state = [file_b]" by (simp add: lost_task_state_def)
  show "workers lost_task_state = [Exited]" by (simp add: lost_task_state_def)
  show "sint (progress_counter lost_task_state) = 0" by (simp add: lost_task_state_def)
  show "\<not> completed new_file_fs lost_task_state"
    by (simp add: completed_def lost_task_state_def new_file_fs_def)
qed

subsection \<open>C4: an unchanged tree raises no alert\<close>

text \<open>
  Claim C4 as stated fails on two copies of one file. Both files are readable, both
  have the fingerprint 1 and the size 10, their modification times are 100 and 200, and
  the baseline holds exactly these two records. The lookup of the second file returns
  the first record, and the completed run reports a changed timestamp.
\<close>

theorem copies_raise_timestamp_alert:
  "walk_files directory_to_scan copies_fs = [file_a, file_b] \<and>
   read_file copies_fs file_a = Content 1 10 100 \<and>
   read_file copies_fs file_b = Content 1 10 200 \<and>
   load_baseline_metadata (Records [record_of 1 10 100, record_of 1 10 200])
     (zeros (count_files copies_fs)) =
     Inr [\<lparr>hash_cell = 1, size_cell = 10, timestamp_cell = 100\<rparr>,
          \<lparr>hash_cell = 1, size_cell = 10, timestamp_cell = 200\<rparr>] \<and>
   main (Records [record_of 1 10 100, record_of 1 10 200]) copies_fs 3 (sequential_schedule 2) =
     Inr (final_state 2 [TimestampChanged file_b]) \<and>
   completed copies_fs (final_state 2 [TimestampChanged file_b])"
proof (intro conjI)
  show "walk_files directory_to_scan copies_fs = [file_a, file_b]"
    by (simp add: copies_fs_def walk_flat_tree)
  show "read_file copies_fs file_a = Content 1 10 100"
    and "read_file copies_fs file_b = Content 1 10 200"
    by (simp_all add: copies_fs_def)
  show "load_baseline_metadata (Records [record_of 1 10 100, record_of 1 10 200])
     (zeros (count_files copies_fs)) =
     Inr [\<lparr>hash_cell = 1, size_cell = 10, timestamp_cell = 100\<rparr>,
          \<lparr>hash_cell = 1, size_cell = 10, timestamp_cell = 200\<rparr>]"
    by (rule load_copies)
  show "main (Records [record_of 1 10 100, record_of 1 10 200]) copies_fs 3
     (sequential_schedule 2) = Inr (final_state 2 [TimestampChanged file_b])"
    by (rule run_copies)
  show "completed copies_fs (final_state 2 [TimestampChanged file_b])"
    by (simp add: copies_fs_def completed_final)
qed

text \<open>
  Claim C4, amended: for every file set in which every live file is readable and the
  baseline record that the lookup of its fingerprint returns (the first row whose
  fingerprint cell equals the file's fingerprint) has that file's size and timestamp,
  the run produces an empty alert sequence: the alert list is empty in every state of
  every schedule.
\<close>

theorem unchanged_tree_no_alerts:
  assumes "main baseline_json fs cpu_count schedule = Inr s"
    and "load_baseline_metadata baseline_json (zeros (count_files fs)) = Inr shared_array"
    and "\<forall>p \<in> set (walk_files directory_to_scan fs). \<exists>d sz ts r.
           read_file fs p = Content d sz ts \<and>
           baseline_lookup shared_array (take_bit 64 d) = Some r \<and>
           size_cell r = f64_of_nat sz \<and> timestamp_cell r = ts"
  shows "alert_list s = []"
proof -
  have "worker_task fs shared_array p = []" if "p \<in> set (walk_files directory_to_scan fs)" for p
  proof -
    from assms(3) that obtain d sz ts r where "read_file fs p = Content d sz ts"
      and "baseline_lookup shared_array (take_bit 64 d) = Some r"
      and "size_cell r = f64_of_nat sz" and "timestamp_cell r = ts" by blast
    then show ?thesis
      by (simp add: worker_task_content compare_with_baseline_lookup)
  qed
  then have "concat (map (worker_task fs shared_array) (walk_files directory_to_scan fs)) = []"
    by simp
  then have "alerts_of fs shared_array (mset (walk_files directory_to_scan fs)) = {#}"
    by (simp add: alerts_of_mset)
  moreover from accounted_main [OF assms(1,2)] obtain D n
    where "accounted fs shared_array (walk_files directory_to_scan fs) s D n" by blast
  note accounted_alerts [OF this]
  ultimately show ?thesis by simp
qed

text \<open>
  The theorem at a tree of two files with distinct fingerprints, each recorded in the
  baseline.
\<close>

theorem unchanged_tree_no_alerts_witness:
  "main (Records [record_of 1 10 100, record_of 2 20 200]) two_files_fs 3
     (sequential_schedule 2) = Inr (final_state 2 []) \<and>
   alert_list (final_state 2 []) = []"
proof -
  have "\<forall>p \<in> set (walk_files directory_to_scan two_files_fs). \<exists>d sz ts r.
      read_file two_files_fs p = Content d sz ts \<and>
      baseline_lookup [\<lparr>hash_cell = 1, size_cell = 10, timestamp_cell = 100\<rparr>,
        \<lparr>hash_cell = 2, size_cell = 20, timestamp_cell = 200\<rparr>] (take_bit 64 d) = Some r \<and>
      size_cell r = f64_of_nat sz \<and> timestamp_cell r = ts"
    by (simp add: two_files_fs_def walk_flat_tree baseline_lookup_def f64_of_nat_exact
        take_bit_eq_mod)
  from unchanged_tree_no_alerts [OF run_two_files load_two_files this] run_two_files
  show ?thesis by simp
qed

subsection \<open>C5: size and timestamp are compared independently\<close>



subsection \<open>C6: a file absent from the baseline is reported once\<close>

text \<open>
  Claim C6: for every readable live file whose fingerprint is absent from the baseline
  index, exactly one NewFile alert is produced for that path, and no size or timestamp
  comparison is performed for it.

  The parallel pipeline does not do so when the baseline snapshot is empty and the one
  live file has the fingerprint 0. The array has one row per live file, the row stays
  zero, the lookup of the fingerprint 0 returns it, and the completed run reports a
  changed size and a changed timestamp and no new file. The sequential pipeline, whose
  array has one row per record, reports the new file. In both pipelines a fingerprint
  \<open>2 ^ 53 + 1\<close> that is not in a baseline holding \<open>2 ^ 53\<close> is found there after
  rounding to float64, and no alert is produced.
\<close>

theorem absent_fingerprint_not_reported_as_new:
  "load_baseline_metadata (Records []) (zeros (count_files zero_fingerprint_fs)) =
     Inr [zero_row] \<and>
   calculate_file_metadata zero_fingerprint_fs file_a =
     Inr (Some \<lparr>md_hash = 0, md_size = 20, md_timestamp = 200\<rparr>) \<and>
   worker_task zero_fingerprint_fs [zero_row] file_a =
     [SizeChanged file_a, TimestampChanged file_a] \<and>
   main (Records []) zero_fingerprint_fs 3 (sequential_schedule 1) =
     Inr (final_state 1 [SizeChanged file_a, TimestampChanged file_a]) \<and>
   completed zero_fingerprint_fs (final_state 1 [SizeChanged file_a, TimestampChanged file_a]) \<and>
   main_linear (Records []) zero_fingerprint_fs = Inr [NewFile file_a] \<and>
   worker_task rounded_fs
     [\<lparr>hash_cell = 9007199254740992, size_cell = 10, timestamp_cell = 100\<rparr>] file_a = [] \<and>
   main_linear (Records [record_of 9007199254740992 10 100]) rounded_fs = Inr []"
proof (intro conjI)
  show "load_baseline_metadata (Records []) (zeros (count_files zero_fingerprint_fs)) =
     Inr [zero_row]"
    by (rule load_zero_fingerprint)
  show "calculate_file_metadata zero_fingerprint_fs file_a =
     Inr (Some \<lparr>md_hash = 0, md_size = 20, md_timestamp = 200\<rparr>)"
    by (simp add: calculate_file_metadata_def zero_fingerprint_fs_def take_bit_eq_mod)
  show "worker_task zero_fingerprint_fs [zero_row] file_a =
     [SizeChanged file_a, TimestampChanged file_a]"
    by (simp add: zero_fingerprint_fs_def run_simps)
  show "main (Records []) zero_fingerprint_fs 3 (sequential_schedule 1) =
     Inr (final_state 1 [SizeChanged file_a, TimestampChanged file_a])"
    by (rule run_zero_fingerprint)
  show "completed zero_fingerprint_fs
     (final_state 1 [SizeChanged file_a, TimestampChanged file_a])"
    by (simp add: zero_fingerprint_fs_def completed_final)
  show "main_linear (Records []) zero_fingerprint_fs = Inr [NewFile file_a]"
    by (simp add: main_linear_def load_baseline_metadata_linear_def zeros_def
        process_files_def zero_fingerprint_fs_def walk_flat_tree calculate_file_metadata_def
        compare_with_baseline_def f64_of_nat_exact take_bit_eq_mod)
  show "worker_task rounded_fs
     [\<lparr>hash_cell = 9007199254740992, size_cell = 10, timestamp_cell = 100\<rparr>] file_a = []"
    by (simp add: rounded_fs_def run_simps f64_example)
  show "main_linear (Records [record_of 9007199254740992 10 100]) rounded_fs = Inr []"
    using load_rounded
    by (simp add: main_linear_def load_baseline_metadata_linear_def load_baseline_metadata_def
        rounded_fs_def process_files_def walk_flat_tree calculate_file_metadata_def
        compare_with_baseline_def f64_example f64_of_nat_exact take_bit_eq_mod)
qed

subsection \<open>C7: baseline entries without a live file\<close>

text \<open>
  Claim C7 as stated fails: the baseline holds one record with fingerprint 1, the live
  tree holds one file with fingerprint 2, so no live file matches the record. Both
  pipelines complete with the single alert NewFile for the live file; nothing reports
  the record.
\<close>

theorem unmatched_baseline_entry_unreported:
  "load_baseline_metadata (Records [record_of 1 10 100]) (zeros (count_files new_file_fs)) =
     Inr [\<lparr>hash_cell = 1, size_cell = 10, timestamp_cell = 100\<rparr>] \<and>
   walk_files directory_to_scan new_file_fs = [file_b] \<and>
   calculate_file_metadata new_file_fs file_b =
     Inr (Some \<lparr>md_hash = 2, md_size = 20, md_timestamp = 200\<rparr>) \<and>
   main (Records [record_of 1 10 100]) new_file_fs 3 (sequential_schedule 1) =
     Inr (final_state 1 [NewFile file_b]) \<and>
   completed new_file_fs (final_state 1 [NewFile file_b]) \<and>
   main_linear (Records [record_of 1 10 100]) new_file_fs = Inr [NewFile file_b]"
proof (intro conjI)
  show "load_baseline_metadata (Records [record_of 1 10 100]) (zeros (count_files new_file_fs)) =
     Inr [\<lparr>hash_cell = 1, size_cell = 10, timestamp_cell = 100\<rparr>]"
    by (rule load_new_file)
  show "walk_files directory_to_scan new_file_fs = [file_b]"
    by (simp add: new_file_fs_def walk_flat_tree)
  show "calculate_file_metadata new_file_fs file_b =
     Inr (Some \<lparr>md_hash = 2, md_size = 20, md_timestamp = 200\<rparr>)"
    by (simp add: calculate_file_metadata_def new_file_fs_def take_bit_eq_mod)
  show "main (Records [record_of 1 10 100]) new_file_fs 3 (sequential_schedule 1) =
     Inr (final_state 1 [NewFile file_b])"
    by (rule run_new_file)
  show "completed new_file_fs (final_state 1 [NewFile file_b])"
    by (simp add: new_file_fs_def completed_final)
  show "main_linear (Records [record_of 1 10 100]) new_file_fs = Inr [NewFile file_b]"
    by (simp add: main_linear_def load_baseline_metadata_linear_def zeros_def store_record_of
        process_files_def new_file_fs_def walk_flat_tree calculate_file_metadata_def
        compare_with_baseline_def f64_of_nat_exact take_bit_eq_mod)
qed

text \<open>
  Claim C7, amended: a baseline entry whose fingerprint is matched by no file in the
  live tree is not reported. Every alert of a run names a path the walker discovered
  and is one of the alerts of that path's own comparison, and the alerts of a completed
  run are exactly the alerts of the discovered paths.
\<close>

theorem alerts_only_for_discovered_paths:
  assumes "main baseline_json fs cpu_count schedule = Inr s"
    and "load_baseline_metadata baseline_json (zeros (count_files fs)) = Inr shared_array"
  shows "(\<forall>a \<in> set (alert_list s).
        alert_path a \<in> set (walk_files directory_to_scan fs) \<and>
        a \<in> set (worker_task fs shared_array (alert_path a))) \<and>
    (completed fs s \<longrightarrow>
       mset (alert_list s) =
       mset (concat (map (worker_task fs shared_array) (walk_files directory_to_scan fs))))"
proof -
  from accounted_main [OF assms] obtain D n
    where acc: "accounted fs shared_array (walk_files directory_to_scan fs) s D n" by blast
  have "alert_path a \<in> set (walk_files directory_to_scan fs) \<and>
      a \<in> set (worker_task fs shared_array (alert_path a))" if "a \<in> set (alert_list s)" for a
  proof -
    from that have "a \<in># mset (alert_list s)" by simp
    with accounted_alerts [OF acc]
    have "a \<in># alerts_of fs shared_array (mset (walk_files directory_to_scan fs))"
      by (metis mset_subset_eqD)
    from alerts_of_member [OF this] show ?thesis by simp
  qed
  moreover have "mset (alert_list s) =
      mset (concat (map (worker_task fs shared_array) (walk_files directory_to_scan fs)))"
    if "completed fs s"
    using accounted_completed(2) [OF acc length_walk_files that] by (simp add: alerts_of_mset)
  ultimately show ?thesis by blast
qed

text \<open>
  The theorem at the run of the counterexample.
\<close>

theorem alerts_only_for_discovered_paths_witness:
  "main (Records [record_of 1 10 100]) new_file_fs 3 (sequential_schedule 1) =
     Inr (final_state 1 [NewFile file_b]) \<and>
   mset (alert_list (final_state 1 [NewFile file_b])) =
     mset (concat (map (worker_task new_file_fs
       [\<lparr>hash_cell = 1, size_cell = 10, timestamp_cell = 100\<rparr>])
       (walk_files directory_to_scan new_file_fs))) \<and>
   alert_path (NewFile file_b) \<in> set (walk_files directory_to_scan new_file_fs)"
proof -
  have c: "completed new_file_fs (final_state 1 [NewFile file_b])"
    by (simp add: new_file_fs_def completed_final)
  have a: "NewFile file_b \<in> set (alert_list (final_state 1 [NewFile file_b]))"
    by (simp add: final_state_def)
  from alerts_only_for_discovered_paths [OF run_new_file load_new_file] c a run_new_file
  show ?thesis by blast
qed

subsection \<open>C8: a malformed snapshot stops the run\<close>

text \<open>
  Claim C8 as stated fails. The document \<^verbatim>\<open>{}\<close> is not a sequence of records, and a
  snapshot whose only record has the fingerprint \<open>- 1\<close> and the size \<open>5 / 2\<close> does not
  have the specified format; yet each of them loads, the tree is scanned and an alert
  is emitted.
\<close>

theorem malformed_snapshot_is_scanned:
  "\<not> spec_snapshot_valid (Object []) \<and>
   main (Object []) new_file_fs 3 (sequential_schedule 1) =
     Inr (final_state 1 [NewFile file_b]) \<and>
   \<not> spec_snapshot_valid (Records [malformed_record]) \<and>
   main (Records [malformed_record]) new_file_fs 3 (sequential_schedule 1) =
     Inr (final_state 1 [NewFile file_b])"
proof (intro conjI)
  show "\<not> spec_snapshot_valid (Object [])"
    by (simp add: spec_snapshot_valid_def)
  have "load_baseline_metadata (Object []) (zeros (count_files new_file_fs)) =
      Inr [\<lparr>hash_cell = 0, size_cell = 0, timestamp_cell = 0\<rparr>]"
    by (simp add: load_baseline_metadata_def new_file_fs_def zeros_def zero_row_def)
  from main_loaded [OF this, of 3 "sequential_schedule 1"]
  show "main (Object []) new_file_fs 3 (sequential_schedule 1) =
     Inr (final_state 1 [NewFile file_b])"
    by (simp add: schedules new_file_fs_def walk_flat_tree run_simps final_state_def)
  show "\<not> spec_snapshot_valid (Records [malformed_record])"
    by (simp add: spec_snapshot_valid_def spec_record_valid_def malformed_record_def)
  show "main (Records [malformed_record]) new_file_fs 3 (sequential_schedule 1) =
     Inr (final_state 1 [NewFile file_b])"
    using main_loaded [OF load_malformed, of 3 "sequential_schedule 1"]
    by (simp add: schedules new_file_fs_def walk_flat_tree run_simps final_state_def)
qed

text \<open>
  Claim C8, amended: for every snapshot that cannot be decoded, or in which some record
  lacks one of the three keys or holds a value that a float64 cell refuses, or that is
  an object with keys instead of a list, the load raises and \<^verbatim>\<open>main\<close> ends with that
  exception before the queue, the counter, the alert list, the producer or any worker
  exists: under no schedule is there a pipeline state, hence no scanning and no alert.
\<close>

theorem rejected_snapshot_stops_before_scanning:
  assumes "baseline_json = NotJSON \<or>
      (\<exists>es. baseline_json = Records es \<and> list_ex rejected es) \<or>
      (\<exists>key keys. baseline_json = Object (key # keys))"
  shows "\<exists>e. \<forall>cpu_count schedule. main baseline_json fs cpu_count schedule = Inl e"
proof -
  have "isl (load_baseline_metadata baseline_json (zeros (count_files fs)))"
    using assms by (auto simp: load_baseline_metadata_def store_entries_rejected)
  then obtain e where "load_baseline_metadata baseline_json (zeros (count_files fs)) = Inl e"
    by (auto simp: isl_def)
  from main_failed [OF this] show ?thesis by blast
qed

text \<open>
  The theorem at a file that is not JSON and at a snapshot whose record has no keys.
\<close>

theorem rejected_snapshot_stops_before_scanning_witness:
  "main NotJSON new_file_fs 3 (sequential_schedule 1) = Inl JSONDecodeError \<and>
   main (Records [Map.empty]) new_file_fs 3 (sequential_schedule 1) = Inl (KeyError ''hash'')"
proof -
  from rejected_snapshot_stops_before_scanning [of NotJSON new_file_fs]
  obtain e where "main NotJSON new_file_fs 3 (sequential_schedule 1) = Inl e" by blast
  moreover have "main NotJSON new_file_fs 3 (sequential_schedule 1) = Inl JSONDecodeError"
    by (simp add: main_def load_baseline_metadata_def)
  moreover have "rejected Map.empty"
    by (simp add: rejected_def cell_of_def getitem_def)
  then have "\<exists>e. \<forall>cpu_count schedule.
      main (Records [Map.empty]) new_file_fs cpu_count schedule = Inl e"
    by (intro rejected_snapshot_stops_before_scanning) simp
  moreover have "main (Records [Map.empty]) new_file_fs 3 (sequential_schedule 1) =
      Inl (KeyError ''hash'')"
    by (simp add: main_def load_baseline_metadata_def new_file_fs_def zeros_def store_entry_def
        setitem_def getitem_def)
  ultimately show ?thesis by simp
qed

subsection \<open>C9: the queue never exceeds its capacity\<close>

text \<open>
  Claim C9: for every scan run with queue capacity \<open>cap\<close>, the producer suspends whenever
  the queue is at capacity, so that at no point does the queue hold more than \<open>cap\<close>
  unclaimed tasks.

  For a positive capacity, in every state of every schedule the queue holds at most
  \<open>cap\<close> paths, the producer is about to put only when the queue is below capacity, and
  a producer waiting at a full queue does not move.
\<close>

theorem queue_never_exceeds_capacity:
  assumes "0 < cap" and "s = run fs shared_array cap schedule (start paths num_processes)"
  shows "length (queue s) \<le> cap \<and>
    (producer s = Putting \<longrightarrow> length (queue s) < cap) \<and>
    (producer s = Waiting \<and> cap \<le> length (queue s) \<longrightarrow> producer_process cap s = s)"
proof -
  have "bounded cap (start paths num_processes)"
    using assms(1) by (simp add: bounded_def start_def)
  from bounded_run [OF this] have "bounded cap s" by (simp add: assms(2))
  then show ?thesis by (simp add: bounded_def producer_process_def)
qed

text \<open>
  The theorem at capacity 1 with two paths and no worker step: the producer puts the
  first path and then waits.
\<close>

theorem queue_never_exceeds_capacity_witness:
  "run vanished_fs [] 1 [Producer, Producer, Producer] (start [file_a, file_b] 1) =
     \<lparr>pending = [file_b], producer = Waiting, queue = [file_a], stop_event = False,
      progress_counter = 0, alert_list = [], workers = [Checking]\<rparr> \<and>
   length (queue (run vanished_fs [] 1 [Producer, Producer, Producer] (start [file_a, file_b] 1)))
     \<le> 1 \<and>
   producer_process 1
     (run vanished_fs [] 1 [Producer, Producer, Producer] (start [file_a, file_b] 1)) =
     run vanished_fs [] 1 [Producer, Producer, Producer] (start [file_a, file_b] 1)"
proof -
  have r: "run vanished_fs [] 1 [Producer, Producer, Producer] (start [file_a, file_b] 1) =
     \<lparr>pending = [file_b], producer = Waiting, queue = [file_a], stop_event = False,
      progress_counter = 0, alert_list = [], workers = [Checking]\<rparr>"
    by (simp add: run_def producer_process_def start_def)
  have "(0::nat) < 1" by simp
  from queue_never_exceeds_capacity [OF this refl, of vanished_fs "[]"
      "[Producer, Producer, Producer]" "[file_a, file_b]" 1]
  show ?thesis unfolding r by simp
qed

subsection \<open>C10: the array has one row per live file\<close>



end
